theory Spec2Isabelle
  imports Main "HOL-Library.Word"
begin

unbundle bit_operations_syntax

section \<open>godbm: a file-backed hash table with per-bucket search trees\<close>

text \<open>
  The development embeds \<^verbatim>\<open>godbm.go\<close>. The file is a list of bytes, offsets and
  directory entries are 64-bit words, sizes and lengths are 32-bit words. Go's \<^verbatim>\<open>int\<close>
  is taken as 64 bits wide. Every return with a non-nil error and every run-time panic
  of the source is a value \<open>Inl e\<close>.
\<close>

subsection \<open>Data\<close>

type_synonym byte = "8 word"
type_synonym u32 = "32 word"
type_synonym u64 = "64 word"

datatype error = EOF | IOError | Panic

text \<open>\<^verbatim>\<open>type record struct\<close> (\<open>record\<close> and \<open>size\<close> are taken in Isabelle: \<open>dbrecord\<close>, \<open>rsize\<close>).\<close>

record dbrecord =
  offset :: u64
  rsize :: u32
  left :: u64
  right :: u64
  key :: "byte list"
  val :: "byte list"

text \<open>\<^verbatim>\<open>type HashDB struct\<close>; \<open>dbfile\<close> is the content of \<^verbatim>\<open>file\<close>, the mutex has no content.\<close>

record HashDB =
  nbuckets :: u32
  buckets :: "u64 list"
  dbfile :: "byte list"

subsection \<open>\<^verbatim>\<open>encoding/binary\<close>, big endian\<close>

definition be32 :: "u32 \<Rightarrow> byte list" where
  "be32 w = [ucast (drop_bit 24 w), ucast (drop_bit 16 w), ucast (drop_bit 8 w), ucast w]"

definition be64 :: "u64 \<Rightarrow> byte list" where
  "be64 w = [ucast (drop_bit 56 w), ucast (drop_bit 48 w), ucast (drop_bit 40 w),
             ucast (drop_bit 32 w), ucast (drop_bit 24 w), ucast (drop_bit 16 w),
             ucast (drop_bit 8 w), ucast w]"

definition rd32 :: "byte list \<Rightarrow> u32" where
  "rd32 bs = push_bit 24 (ucast (bs ! 0)) OR push_bit 16 (ucast (bs ! 1)) OR
             push_bit 8 (ucast (bs ! 2)) OR ucast (bs ! 3)"

definition rd64 :: "byte list \<Rightarrow> u64" where
  "rd64 bs = push_bit 56 (ucast (bs ! 0)) OR push_bit 48 (ucast (bs ! 1)) OR
             push_bit 40 (ucast (bs ! 2)) OR push_bit 32 (ucast (bs ! 3)) OR
             push_bit 24 (ucast (bs ! 4)) OR push_bit 16 (ucast (bs ! 5)) OR
             push_bit 8 (ucast (bs ! 6)) OR ucast (bs ! 7)"

subsection \<open>\<^verbatim>\<open>os.File\<close>\<close>

text \<open>
  \<^verbatim>\<open>ReadAt(b, off)\<close> for a buffer of \<open>n\<close> bytes: an error when the offset, read as
  \<^verbatim>\<open>int64\<close>, is negative and when the file ends before \<open>n\<close> bytes were read.
\<close>

definition ReadAt :: "byte list \<Rightarrow> nat \<Rightarrow> int \<Rightarrow> error + byte list" where
  "ReadAt f n off =
     (if off < 0 then Inl IOError
      else if n = 0 then Inr []
      else if nat off + n \<le> length f then Inr (take n (drop (nat off) f))
      else Inl EOF)"

text \<open>
  \<^verbatim>\<open>WriteAt(b, off)\<close>: nothing is written for an empty \<open>b\<close>; a write behind the end
  of the file fills the gap with zeros; a write that would make the file longer than the
  largest \<^verbatim>\<open>int64\<close> offset fails.
\<close>

definition WriteAt :: "byte list \<Rightarrow> byte list \<Rightarrow> int \<Rightarrow> error + byte list" where
  "WriteAt f b off =
     (if off < 0 then Inl IOError
      else if b = [] then Inr f
      else if 2 ^ 63 \<le> nat off + length b then Inl IOError
      else Inr (take (nat off) (f @ replicate (nat off - length f) 0) @ b @
                drop (nat off + length b) f))"

subsection \<open>Record codec\<close>

text \<open>
  \<^verbatim>\<open>func nextPowerTwo(x uint32) uint32\<close>; \<open>smear\<close> is its loop, which runs for
  \<open>i = 1, 2, 4, \<dots>, 64\<close>.
\<close>

definition smear :: "u32 \<Rightarrow> u32" where
  "smear y = fold (\<lambda>i y. y OR drop_bit i y) [1, 2, 4, 8, 16, 32, 64] y"

definition nextPowerTwo :: "u32 \<Rightarrow> u32" where
  "nextPowerTwo x = (if x = 0 then 1 else smear (x - 1) + 1)"

text \<open>
  The bytes \<^verbatim>\<open>writeRecord\<close> hands to \<^verbatim>\<open>WriteAt\<close>, \<open>recordHeader\<close> being the five
  integers written first: the buffer starts empty with
  capacity \<open>size\<close> over zeroed memory, and \<^verbatim>\<open>buffer.Bytes()[:rec.size]\<close> is its first
  \<open>size\<close> bytes. When the content is longer than \<open>size\<close> the buffer has grown and the
  slice cuts the content.
\<close>

definition recordHeader :: "dbrecord \<Rightarrow> byte list" where
  "recordHeader rec = be32 (rsize rec) @ be64 (left rec) @ be64 (right rec) @
                be32 (of_nat (length (key rec))) @ be32 (of_nat (length (val rec)))"

definition recordBytes :: "dbrecord \<Rightarrow> byte list" where
  "recordBytes rec =
     (let content = recordHeader rec @ key rec @ val rec
      in take (unat (rsize rec)) (content @ replicate (unat (rsize rec) - length content) 0))"

definition writeRecord :: "byte list \<Rightarrow> dbrecord \<Rightarrow> error + byte list" where
  "writeRecord f rec = WriteAt f (recordBytes rec) (sint (offset rec))"

text \<open>
  \<^verbatim>\<open>readRecord\<close> fills in every field of \<open>rec\<close> but \<open>offset\<close>. The sum
  \<^verbatim>\<open>keyl+vall\<close> is a \<^verbatim>\<open>uint32\<close>; when it wraps, the slice \<^verbatim>\<open>data[:keyl]\<close> is out of
  range and panics.
\<close>

definition readRecord :: "byte list \<Rightarrow> u64 \<Rightarrow> error + dbrecord" where
  "readRecord f off =
     (case ReadAt f 28 (sint off) of
        Inl e \<Rightarrow> Inl e
      | Inr header \<Rightarrow>
          (let keyl = rd32 (take 4 (drop 20 header));
               vall = rd32 (take 4 (drop 24 header))
           in case ReadAt f (unat (keyl + vall)) (sint (off + 28)) of
                Inl e \<Rightarrow> Inl e
              | Inr data \<Rightarrow>
                  if unat (keyl + vall) < unat keyl then Inl Panic
                  else Inr \<lparr>offset = off,
                            rsize = rd32 (take 4 header),
                            left = rd64 (take 8 (drop 4 header)),
                            right = rd64 (take 8 (drop 12 header)),
                            key = take (unat keyl) data,
                            val = drop (unat keyl) data\<rparr>))"

subsection \<open>\<^verbatim>\<open>crypto/md5\<close>\<close>

text \<open>
  The digest of the Go library, after RFC 1321: the message is padded to a multiple of
  64 bytes, cut into little-endian 32-bit words, and every block of 16 words goes through
  64 rounds.
\<close>

definition md5_K :: "u32 list" where
  "md5_K =
    [0xd76aa478, 0xe8c7b756, 0x242070db, 0xc1bdceee, 0xf57c0faf, 0x4787c62a,
     0xa8304613, 0xfd469501, 0x698098d8, 0x8b44f7af, 0xffff5bb1, 0x895cd7be,
     0x6b901122, 0xfd987193, 0xa679438e, 0x49b40821, 0xf61e2562, 0xc040b340,
     0x265e5a51, 0xe9b6c7aa, 0xd62f105d, 0x02441453, 0xd8a1e681, 0xe7d3fbc8,
     0x21e1cde6, 0xc33707d6, 0xf4d50d87, 0x455a14ed, 0xa9e3e905, 0xfcefa3f8,
     0x676f02d9, 0x8d2a4c8a, 0xfffa3942, 0x8771f681, 0x6d9d6122, 0xfde5380c,
     0xa4beea44, 0x4bdecfa9, 0xf6bb4b60, 0xbebfbc70, 0x289b7ec6, 0xeaa127fa,
     0xd4ef3085, 0x04881d05, 0xd9d4d039, 0xe6db99e5, 0x1fa27cf8, 0xc4ac5665,
     0xf4292244, 0x432aff97, 0xab9423a7, 0xfc93a039, 0x655b59c3, 0x8f0ccc92,
     0xffeff47d, 0x85845dd1, 0x6fa87e4f, 0xfe2ce6e0, 0xa3014314, 0x4e0811a1,
     0xf7537e82, 0xbd3af235, 0x2ad7d2bb, 0xeb86d391]"

definition md5_s :: "nat list" where
  "md5_s =
    [7, 12, 17, 22, 7, 12, 17, 22, 7, 12, 17, 22, 7, 12, 17, 22,
     5, 9, 14, 20, 5, 9, 14, 20, 5, 9, 14, 20, 5, 9, 14, 20,
     4, 11, 16, 23, 4, 11, 16, 23, 4, 11, 16, 23, 4, 11, 16, 23,
     6, 10, 15, 21, 6, 10, 15, 21, 6, 10, 15, 21, 6, 10, 15, 21]"

definition le32 :: "byte list \<Rightarrow> u32" where
  "le32 bs = ucast (bs ! 0) OR push_bit 8 (ucast (bs ! 1)) OR push_bit 16 (ucast (bs ! 2)) OR
             push_bit 24 (ucast (bs ! 3))"

definition le32_bytes :: "u32 \<Rightarrow> byte list" where
  "le32_bytes w = [ucast w, ucast (drop_bit 8 w), ucast (drop_bit 16 w), ucast (drop_bit 24 w)]"

definition le64_bytes :: "u64 \<Rightarrow> byte list" where
  "le64_bytes w = map (\<lambda>i. ucast (drop_bit (8 * i) w)) [0, 1, 2, 3, 4, 5, 6, 7]"

definition md5_pad :: "byte list \<Rightarrow> byte list" where
  "md5_pad msg =
     msg @ [0x80] @ replicate ((119 - length msg mod 64) mod 64) 0 @
     le64_bytes (of_nat (8 * length msg))"

fun md5_words :: "byte list \<Rightarrow> u32 list" where
  "md5_words (a # b # c # d # bs) = le32 [a, b, c, d] # md5_words bs"
| "md5_words _ = []"

definition md5_round :: "u32 list \<Rightarrow> nat \<Rightarrow> u32 \<times> u32 \<times> u32 \<times> u32 \<Rightarrow> u32 \<times> u32 \<times> u32 \<times> u32" where
  "md5_round m i st =
     (case st of (a, b, c, d) \<Rightarrow>
        let (f, g) =
              (if i < 16 then ((b AND c) OR (NOT b AND d), i)
               else if i < 32 then ((d AND b) OR (NOT d AND c), (5 * i + 1) mod 16)
               else if i < 48 then (b XOR c XOR d, (3 * i + 5) mod 16)
               else (c XOR (b OR NOT d), (7 * i) mod 16));
            f' = f + a + md5_K ! i + m ! g
        in (d, b + word_rotl (md5_s ! i) f', b, c))"

definition md5_block :: "u32 \<times> u32 \<times> u32 \<times> u32 \<Rightarrow> u32 list \<Rightarrow> u32 \<times> u32 \<times> u32 \<times> u32" where
  "md5_block st m =
     (case st of (a0, b0, c0, d0) \<Rightarrow>
        case fold (md5_round m) [0..<64] st of (a, b, c, d) \<Rightarrow>
          (a0 + a, b0 + b, c0 + c, d0 + d))"

fun md5_blocks :: "u32 \<times> u32 \<times> u32 \<times> u32 \<Rightarrow> u32 list \<Rightarrow> u32 \<times> u32 \<times> u32 \<times> u32" where
  "md5_blocks st ws = (if length ws < 16 then st else md5_blocks (md5_block st (take 16 ws)) (drop 16 ws))"

definition md5_sum :: "byte list \<Rightarrow> byte list" where
  "md5_sum msg =
     (case md5_blocks (0x67452301, 0xefcdab89, 0x98badcfe, 0x10325476) (md5_words (md5_pad msg)) of
        (a, b, c, d) \<Rightarrow> le32_bytes a @ le32_bytes b @ le32_bytes c @ le32_bytes d)"

subsection \<open>\<^verbatim>\<open>bytes.Compare\<close>\<close>

fun Compare :: "byte list \<Rightarrow> byte list \<Rightarrow> int" where
  "Compare [] [] = 0"
| "Compare [] (y # ys) = - 1"
| "Compare (x # xs) [] = 1"
| "Compare (x # xs) (y # ys) = (if x < y then - 1 else if y < x then 1 else Compare xs ys)"

subsection \<open>The hash table\<close>

text \<open>
  \<^verbatim>\<open>func (db *HashDB) bucket(key []byte)\<close>. In \<^verbatim>\<open>uint64(sum[i] << (8 * i))\<close> the shift
  is a shift of the byte \<^verbatim>\<open>sum[i]\<close>, and only its result is widened. The mask is the
  \<^verbatim>\<open>uint64\<close> constant \<open>2\<^sup>6\<^sup>4 - 1\<close> shifted right by the \<^verbatim>\<open>uint32\<close> value
  \<^verbatim>\<open>64 - db.nbuckets\<close>.
\<close>

definition bucket :: "HashDB \<Rightarrow> byte list \<Rightarrow> u64" where
  "bucket db k =
     (let sum = md5_sum k;
          bucket_id = fold (\<lambda>i b. b OR ucast (push_bit (8 * i) (sum ! i) :: byte))
                        [0, 1, 2, 3, 4, 5, 6, 7] 0
      in bucket_id AND drop_bit (unat (64 - nbuckets db)) (- 1))"

text \<open>
  \<^verbatim>\<open>writeBuckets\<close>: two writes from the start of the file; their errors are dropped,
  and a failed write leaves the file position where it was.
\<close>

definition writeBuckets :: "HashDB \<Rightarrow> HashDB" where
  "writeBuckets db =
     (let (f1, pos) = (case WriteAt (dbfile db) (be32 (nbuckets db)) 0 of
                         Inl e \<Rightarrow> (dbfile db, 0)
                       | Inr f' \<Rightarrow> (f', 4));
          f2 = (case WriteAt f1 (concat (map be64 (buckets db))) pos of
                  Inl e \<Rightarrow> f1
                | Inr f' \<Rightarrow> f')
      in db\<lparr>dbfile := f2\<rparr>)"

text \<open>
  \<^verbatim>\<open>Create\<close>, on a path where the file can be created (it is empty then).
  \<^verbatim>\<open>1<<nbuckets\<close> is an \<^verbatim>\<open>int\<close>; \<^verbatim>\<open>make\<close> panics on a negative length and on a
  slice of \<open>2\<^sup>6\<^sup>3\<close> bytes or more.
\<close>

definition Create :: "u32 \<Rightarrow> error + HashDB" where
  "Create nb =
     (let n = push_bit (unat nb) (1 :: u64)
      in if sint n < 0 \<or> 2 ^ 60 \<le> unat n then Inl Panic
         else Inr (writeBuckets \<lparr>nbuckets = nb, buckets = replicate (unat n) 0, dbfile = []\<rparr>))"

text \<open>
  \<^verbatim>\<open>binSearch\<close> returns the comparison and leaves the record it stopped at in \<open>rec\<close>.
  The recursion follows the links of the file; a result \<open>None\<close> says that it does not
  return.
\<close>

partial_function (option) binSearch ::
    "byte list \<Rightarrow> byte list \<Rightarrow> u64 \<Rightarrow> (error + int \<times> dbrecord) option" where
  "binSearch f k off =
     (case readRecord f off of
        Inl e \<Rightarrow> Some (Inl e)
      | Inr rec \<Rightarrow>
          (let cmp = Compare k (key rec)
           in if cmp < 0 \<and> left rec \<noteq> 0 then binSearch f k (left rec)
              else if cmp > 0 \<and> right rec \<noteq> 0 then binSearch f k (right rec)
              else Some (Inr (cmp, rec))))"

text \<open>The two statements \<^verbatim>\<open>other.left = uint64(offset); db.writeRecord(other)\<close> of
  \<^verbatim>\<open>Set\<close> (and the same for \<open>right\<close>): the error of the write is dropped.\<close>

definition writeLink :: "HashDB \<Rightarrow> dbrecord \<Rightarrow> HashDB" where
  "writeLink db other =
     (case writeRecord (dbfile db) other of Inl e \<Rightarrow> db | Inr f \<Rightarrow> db\<lparr>dbfile := f\<rparr>)"

text \<open>The end of \<^verbatim>\<open>Set\<close>: the new record is written at \<open>off\<close>, and the error of this
  write is the error of \<^verbatim>\<open>Set\<close>.\<close>

definition newRecord :: "u64 \<Rightarrow> byte list \<Rightarrow> byte list \<Rightarrow> dbrecord" where
  "newRecord off k v =
     \<lparr>offset = off, rsize = nextPowerTwo (of_nat (28 + length k + length v)),
      left = 0, right = 0, key = k, val = v\<rparr>"

definition appendRecord ::
    "HashDB \<Rightarrow> u64 \<Rightarrow> byte list \<Rightarrow> byte list \<Rightarrow> error option \<times> HashDB" where
  "appendRecord db off k v =
     (case writeRecord (dbfile db) (newRecord off k v) of
        Inl e \<Rightarrow> (Some e, db)
      | Inr f \<Rightarrow> (None, db\<lparr>dbfile := f\<rparr>))"

text \<open>
  \<^verbatim>\<open>Set\<close> returns its error (\<open>None\<close> is \<^verbatim>\<open>nil\<close>) and the database as it has left it.
  \<^verbatim>\<open>Seek(0, 2)\<close> fails when the size of the file is no \<^verbatim>\<open>int64\<close>; an index outside
  \<^verbatim>\<open>db.buckets\<close> panics.
\<close>

definition Set :: "HashDB \<Rightarrow> byte list \<Rightarrow> byte list \<Rightarrow> (error option \<times> HashDB) option" where
  "Set db k v =
     (if 2 ^ 63 \<le> length (dbfile db) then Some (Some IOError, db)
      else
        let off = of_nat (length (dbfile db)) :: u64;
            bucket_id = unat (bucket db k)
        in if length (buckets db) \<le> bucket_id then Some (Some Panic, db)
           else if buckets db ! bucket_id = 0 then
             Some (appendRecord
                     (writeBuckets (db\<lparr>buckets := (buckets db)[bucket_id := off]\<rparr>)) off k v)
           else
             (case binSearch (dbfile db) k (buckets db ! bucket_id) of
                None \<Rightarrow> None
              | Some (Inl e) \<Rightarrow> Some (Some e, db)
              | Some (Inr (cmp, other)) \<Rightarrow>
                  Some (appendRecord
                          (if cmp = 0 then db
                           else if cmp < 0 then writeLink db (other\<lparr>left := off\<rparr>)
                           else writeLink db (other\<lparr>right := off\<rparr>)) off k v)))"

text \<open>
  \<^verbatim>\<open>Get\<close> returns the pair \<^verbatim>\<open>(value, err)\<close>: the value \<open>None\<close> is the \<^verbatim>\<open>nil\<close> slice,
  \<open>Some []\<close> an empty slice that is not \<^verbatim>\<open>nil\<close>.
\<close>

definition Get :: "HashDB \<Rightarrow> byte list \<Rightarrow> (byte list option \<times> error option) option" where
  "Get db k =
     (let bucket_id = unat (bucket db k)
      in if length (buckets db) \<le> bucket_id then Some (None, Some Panic)
         else
           let off = buckets db ! bucket_id
           in if off = 0 then Some (None, None)
              else
                (case binSearch (dbfile db) k off of
                   None \<Rightarrow> None
                 | Some (Inl e) \<Rightarrow> Some (None, Some e)
                 | Some (Inr (cmp, rec)) \<Rightarrow>
                     if cmp \<noteq> 0 then Some (None, None) else Some (Some (val rec), None)))"

subsection \<open>Sequences of operations\<close>

text \<open>A caller that stops at the first error, as the tests of the package do.\<close>

fun Sets :: "HashDB \<Rightarrow> (byte list \<times> byte list) list \<Rightarrow> (error + HashDB) option" where
  "Sets db [] = Some (Inr db)"
| "Sets db ((k, v) # kvs) =
     (case Set db k v of
        None \<Rightarrow> None
      | Some (Some e, db') \<Rightarrow> Some (Inl e)
      | Some (None, db') \<Rightarrow> Sets db' kvs)"

text \<open>The offsets at which the calls of \<^verbatim>\<open>Set\<close> of such a caller put their records.\<close>

fun written :: "HashDB \<Rightarrow> (byte list \<times> byte list) list \<Rightarrow> u64 list" where
  "written db [] = []"
| "written db ((k, v) # kvs) =
     of_nat (length (dbfile db)) #
     (case Set db k v of Some (None, db') \<Rightarrow> written db' kvs | _ \<Rightarrow> [])"

text \<open>A caller that goes on whatever the operations return.\<close>

datatype op = OpSet "byte list" "byte list" | OpGet "byte list"

fun run :: "HashDB \<Rightarrow> op list \<Rightarrow> HashDB option" where
  "run db [] = Some db"
| "run db (OpSet k v # ops) =
     (case Set db k v of None \<Rightarrow> None | Some (e, db') \<Rightarrow> run db' ops)"
| "run db (OpGet k # ops) =
     (case Get db k of None \<Rightarrow> None | Some r \<Rightarrow> run db ops)"

subsection \<open>The search trees of the buckets\<close>

text \<open>
  The records that the links of the file connect are described by a tree of records:
  \<open>rep f off t\<close> says that following the links from offset \<open>off\<close> in the file \<open>f\<close>
  reads exactly the records of \<open>t\<close>, offset 0 being the missing child.
\<close>

datatype tree = Leaf | Node tree dbrecord tree

fun rep :: "byte list \<Rightarrow> u64 \<Rightarrow> tree \<Rightarrow> bool" where
  "rep f off Leaf \<longleftrightarrow> off = 0"
| "rep f off (Node l r rt) \<longleftrightarrow>
     off \<noteq> 0 \<and> readRecord f off = Inr r \<and> rep f (left r) l \<and> rep f (right r) rt"

fun nodes :: "tree \<Rightarrow> dbrecord set" where
  "nodes Leaf = {}"
| "nodes (Node l r rt) = insert r (nodes l \<union> nodes rt)"

text \<open>The order of the keys is the one of \<^verbatim>\<open>bytes.Compare\<close>.\<close>

fun bst :: "tree \<Rightarrow> bool" where
  "bst Leaf \<longleftrightarrow> True"
| "bst (Node l r rt) \<longleftrightarrow>
     bst l \<and> bst rt \<and>
     (\<forall>x \<in> nodes l. Compare (key x) (key r) < 0) \<and>
     (\<forall>x \<in> nodes rt. Compare (key x) (key r) > 0)"

text \<open>The record at which the walk for a key stops, with the last comparison.\<close>

fun stop :: "tree \<Rightarrow> byte list \<Rightarrow> (int \<times> dbrecord) option" where
  "stop Leaf k = None"
| "stop (Node l r rt) k =
     (let cmp = Compare k (key r)
      in if cmp < 0 \<and> l \<noteq> Leaf then stop l k
         else if cmp > 0 \<and> rt \<noteq> Leaf then stop rt k
         else Some (cmp, r))"

text \<open>The value a tree holds for a key.\<close>

fun lookup :: "tree \<Rightarrow> byte list \<Rightarrow> byte list option" where
  "lookup Leaf k = None"
| "lookup (Node l r rt) k =
     (let cmp = Compare k (key r)
      in if cmp < 0 then lookup l k else if cmp > 0 then lookup rt k else Some (val r))"

text \<open>
  The tree after a new record \<open>n\<close> has been threaded under the record where the walk for
  its key stops; a key that the tree has already leaves it as it is.
\<close>

fun ins :: "dbrecord \<Rightarrow> tree \<Rightarrow> tree" where
  "ins n Leaf = Node Leaf n Leaf"
| "ins n (Node l r rt) =
     (let cmp = Compare (key n) (key r)
      in if cmp < 0 then Node (ins n l) (if l = Leaf then r\<lparr>left := offset n\<rparr> else r) rt
         else if cmp > 0 then Node l (if rt = Leaf then r\<lparr>right := offset n\<rparr> else r) (ins n rt)
         else Node l r rt)"

subsection \<open>The records of the file\<close>

text \<open>
  A record whose allocated size holds its header, key and value, and a record whose
  bytes are in the file at its offset.
\<close>

definition wfrec :: "dbrecord \<Rightarrow> bool" where
  "wfrec x \<longleftrightarrow> 28 + length (key x) + length (val x) \<le> unat (rsize x)"

definition stored :: "byte list \<Rightarrow> dbrecord \<Rightarrow> bool" where
  "stored f x \<longleftrightarrow>
     wfrec x \<and> unat (offset x) + unat (rsize x) \<le> length f \<and>
     take (unat (rsize x)) (drop (unat (offset x)) f) = recordBytes x"

text \<open>
  The state of a database that holds the records \<open>R\<close>, with the tree \<open>T i\<close> in bucket
  \<open>i\<close>: the directory has \<open>2\<^sup>B\<close> entries, the records lie behind it in the file and do
  not overlap, every link leads forward, and every bucket is a search tree of records
  whose keys belong to it.
\<close>

definition inv :: "HashDB \<Rightarrow> dbrecord set \<Rightarrow> (nat \<Rightarrow> tree) \<Rightarrow> bool" where
  "inv db R T \<longleftrightarrow>
     unat (nbuckets db) < 60 \<and> length (buckets db) = 2 ^ unat (nbuckets db) \<and>
     4 + 8 * length (buckets db) \<le> length (dbfile db) \<and> length (dbfile db) < 2 ^ 63 \<and>
     (\<forall>x\<in>R. stored (dbfile db) x \<and> 4 + 8 * length (buckets db) \<le> unat (offset x) \<and>
            (left x \<noteq> 0 \<longrightarrow> offset x < left x) \<and> (right x \<noteq> 0 \<longrightarrow> offset x < right x)) \<and>
     (\<forall>x\<in>R. \<forall>y\<in>R. x \<noteq> y \<longrightarrow>
            unat (offset x) + unat (rsize x) \<le> unat (offset y) \<or>
            unat (offset y) + unat (rsize y) \<le> unat (offset x)) \<and>
     (\<forall>i<length (buckets db). rep (dbfile db) (buckets db ! i) (T i) \<and> bst (T i) \<and>
            nodes (T i) \<subseteq> R \<and> (\<forall>x\<in>nodes (T i). unat (bucket db (key x)) = i))"

text \<open>A key and a value whose record has a size that a \<^verbatim>\<open>uint32\<close> power of two can hold.\<close>

definition fits :: "byte list \<times> byte list \<Rightarrow> bool" where
  "fits kv \<longleftrightarrow> 28 + length (fst kv) + length (snd kv) \<le> 2 ^ 31"

subsection \<open>The bucket index of the specification\<close>

text \<open>
  The bucket index as the specification words it: the first 8 bytes of the digest,
  assembled as a little-endian unsigned 64-bit integer, masked to the lowest \<open>B\<close> bits.
\<close>

definition bucketIndex_spec :: "nat \<Rightarrow> byte list \<Rightarrow> u64" where
  "bucketIndex_spec B k =
     take_bit B (fold (\<lambda>i b. b OR push_bit (8 * i) (ucast (md5_sum k ! i)))
                   [0, 1, 2, 3, 4, 5, 6, 7] 0)"

section \<open>The record codec\<close>

subsection \<open>Big-endian integers\<close>

lemma ucast_byte: "(ucast (ucast (w::'a::len word) :: byte) :: 'a word) = take_bit 8 w"
  by (rule bit_word_eqI) (auto simp: bit_simps)

lemma glue: "push_bit (k + 8) (drop_bit (k + 8) w) OR push_bit k (take_bit 8 (drop_bit k w)) = push_bit k (drop_bit k (w::'a::len word))"
  apply (rule bit_word_eqI)
  subgoal for n by (cases "n < k + 8") (auto simp: bit_simps)
  done

lemma rd32_be32 [simp]: "rd32 (be32 w) = w"
proof -
  have a: "push_bit 24 (take_bit 8 (drop_bit 24 w)) = push_bit 24 (drop_bit 24 w)"
    by (rule bit_word_eqI) (auto simp: bit_simps)
  show ?thesis
    unfolding rd32_def be32_def
    by (simp add: ucast_byte a or.assoc[symmetric] glue[of 16 w, simplified] glue[of 8 w, simplified] glue[of 0 w, simplified])
qed

lemma rd64_be64 [simp]: "rd64 (be64 w) = w"
proof -
  have a: "push_bit 56 (take_bit 8 (drop_bit 56 w)) = push_bit 56 (drop_bit 56 w)"
    by (rule bit_word_eqI) (auto simp: bit_simps)
  show ?thesis
    unfolding rd64_def be64_def
    by (simp add: ucast_byte a or.assoc[symmetric] glue[of 48 w, simplified] glue[of 40 w, simplified]
    glue[of 32 w, simplified] glue[of 24 w, simplified] glue[of 16 w, simplified] glue[of 8 w, simplified] glue[of 0 w, simplified])
qed

subsection \<open>Records in the file\<close>

lemma length_be32 [simp]: "length (be32 w) = 4" by (simp add: be32_def)
lemma length_be64 [simp]: "length (be64 w) = 8" by (simp add: be64_def)

lemma length_recordBytes [simp]: "length (recordBytes rec) = unat (rsize rec)"
  by (simp add: recordBytes_def Let_def del: take_append)

lemma length_header [simp]: "length (recordHeader rec) = 28" by (simp add: recordHeader_def)

lemma header_fields:
  "take 4 (recordHeader rec) = be32 (rsize rec)"
  "take 8 (drop 4 (recordHeader rec)) = be64 (left rec)"
  "take 8 (drop 12 (recordHeader rec)) = be64 (right rec)"
  "take 4 (drop 20 (recordHeader rec)) = be32 (of_nat (length (key rec)))"
  "take 4 (drop 24 (recordHeader rec)) = be32 (of_nat (length (val rec)))"
  by (simp_all add: recordHeader_def)

lemma recordBytes_layout:
  assumes "28 + length (key rec) + length (val rec) \<le> unat (rsize rec)"
  shows "recordBytes rec = recordHeader rec @ key rec @ val rec @
           replicate (unat (rsize rec) - (28 + length (key rec) + length (val rec))) 0"
  using assms by (simp add: recordBytes_def Let_def)


lemma unat_of_nat32: "n < 2 ^ 32 \<Longrightarrow> unat (of_nat n :: u32) = n"
  by (simp add: unat_of_nat)


subsection \<open>The next power of two\<close>

lemma smear_step:
  fixes a y :: u32
  assumes "\<And>n. bit a n \<longleftrightarrow> (\<exists>d<c. bit y (n + d))"
  shows "bit (a OR drop_bit c a) n \<longleftrightarrow> (\<exists>d<2*c. bit y (n + d))"
proof -
  have "bit (a OR drop_bit c a) n \<longleftrightarrow> bit a n \<or> bit a (c + n)"
    by (simp add: bit_simps)
  also have "\<dots> \<longleftrightarrow> (\<exists>d<c. bit y (n + d)) \<or> (\<exists>d<c. bit y (c + n + d))"
    by (simp add: assms)
  also have "\<dots> \<longleftrightarrow> (\<exists>d<2*c. bit y (n + d))"
  proof
    assume "(\<exists>d<c. bit y (n + d)) \<or> (\<exists>d<c. bit y (c + n + d))"
    then show "\<exists>d<2*c. bit y (n + d)"
    proof
      assume "\<exists>d<c. bit y (n + d)"
      then obtain d where "d < c" "bit y (n + d)" by blast
      then show ?thesis by (intro exI[of _ d]) simp
    next
      assume "\<exists>d<c. bit y (c + n + d)"
      then obtain d where "d < c" "bit y (c + n + d)" by blast
      then show ?thesis by (intro exI[of _ "c + d"]) (simp add: ac_simps)
    qed
  next
    assume "\<exists>d<2*c. bit y (n + d)"
    then obtain d where d: "d < 2*c" "bit y (n + d)" by blast
    show "(\<exists>d<c. bit y (n + d)) \<or> (\<exists>d<c. bit y (c + n + d))"
    proof (cases "d < c")
      case True with d show ?thesis by blast
    next
      case False
      with d have "d - c < c" "bit y (c + n + (d - c))" by (simp_all add: ac_simps)
      then show ?thesis by blast
    qed
  qed
  finally show ?thesis .
qed

lemma bit_smear: "bit (smear y) n \<longleftrightarrow> (\<exists>d. bit y (n + d))"
proof -
  define y1 where "y1 = y OR drop_bit 1 y"
  define y2 where "y2 = y1 OR drop_bit 2 y1"
  define y3 where "y3 = y2 OR drop_bit 4 y2"
  define y4 where "y4 = y3 OR drop_bit 8 y3"
  define y5 where "y5 = y4 OR drop_bit 16 y4"
  have b0: "\<And>n. bit y n \<longleftrightarrow> (\<exists>d<1. bit y (n + d))" by simp
  have b1: "\<And>n. bit y1 n \<longleftrightarrow> (\<exists>d<2. bit y (n + d))"
    unfolding y1_def using smear_step[of y 1 y, OF b0] by simp
  have b2: "\<And>n. bit y2 n \<longleftrightarrow> (\<exists>d<4. bit y (n + d))"
    unfolding y2_def using smear_step[of y1 2 y, OF b1] by simp
  have b3: "\<And>n. bit y3 n \<longleftrightarrow> (\<exists>d<8. bit y (n + d))"
    unfolding y3_def using smear_step[of y2 4 y, OF b2] by simp
  have b4: "\<And>n. bit y4 n \<longleftrightarrow> (\<exists>d<16. bit y (n + d))"
    unfolding y4_def using smear_step[of y3 8 y, OF b3] by simp
  have b5: "\<And>n. bit y5 n \<longleftrightarrow> (\<exists>d<32. bit y (n + d))"
    unfolding y5_def using smear_step[of y4 16 y, OF b4] by simp
  have z: "drop_bit 32 y5 = 0" "drop_bit 64 y5 = 0"
    by (rule bit_word_eqI, simp add: bit_simps)+
  have "smear y = y5"
    by (simp add: smear_def y5_def y4_def y3_def y2_def y1_def z[unfolded y5_def y4_def y3_def y2_def y1_def])
  moreover have "(\<exists>d<32. bit y (n + d)) \<longleftrightarrow> (\<exists>d. bit y (n + d))"
  proof
    assume "\<exists>d. bit y (n + d)"
    then obtain d where d: "bit y (n + d)" by blast
    then have "n + d < 32" using bit_imp_le_length[of y "n + d"] by simp
    with d show "\<exists>d<32. bit y (n + d)" by (intro exI[of _ d]) simp
  qed blast
  ultimately show ?thesis by (simp add: b5)
qed


lemma bit_nat_ge: "bit (m::nat) n \<Longrightarrow> 2 ^ n \<le> m"
proof (rule ccontr)
  assume "bit m n" "\<not> 2 ^ n \<le> m"
  then have "m div 2 ^ n = 0" by simp
  with \<open>bit m n\<close> show False by (simp add: bit_nat_def)
qed

lemma high_bit_ex:
  assumes "\<not> (m::nat) < 2 ^ n"
  shows "\<exists>d. bit m (n + d)"
proof -
  have "take_bit n m \<noteq> m" using assms by (simp add: take_bit_nat_eq_self_iff)
  then obtain i where i: "bit (take_bit n m) i \<noteq> bit m i" by (auto simp: bit_eq_iff)
  then have "n \<le> i" "bit m i" by (auto simp: bit_take_bit_iff)
  then have "bit m (n + (i - n))" by simp
  then show ?thesis by blast
qed

lemma smear_mask:
  assumes "unat y < 2 ^ k" "\<And>j. unat y < 2 ^ j \<Longrightarrow> k \<le> j"
  shows "smear y = mask k"
proof (rule bit_word_eqI)
  fix n assume n: "n < LENGTH(32)"
  have "(\<exists>d. bit y (n + d)) \<longleftrightarrow> n < k"
  proof
    assume "\<exists>d. bit y (n + d)"
    then obtain d where d: "bit y (n + d)" by blast
    then have "bit (unat y) (n + d)" by (simp add: bit_unsigned_iff)
    then have "2 ^ (n + d) \<le> unat y" by (rule bit_nat_ge)
    from this assms(1) have "(2::nat) ^ (n + d) < 2 ^ k" by (rule le_less_trans)
    then have "n + d < k" by (simp add: power_strict_increasing_iff)
    then show "n < k" by simp
  next
    assume "n < k"
    then have "\<not> unat y < 2 ^ n" using assms(2)[of n] by auto
    then obtain d where "bit (unat y) (n + d)" using high_bit_ex by blast
    then show "\<exists>d. bit y (n + d)" by (auto simp: bit_unsigned_iff)
  qed
  then show "bit (smear y) n = bit (mask k :: u32) n"
    using n by (simp add: bit_smear bit_simps)
qed

lemma nextPowerTwo_least:
  assumes "x \<noteq> 0" "unat x \<le> 2 ^ 31"
  shows "\<exists>k. unat (nextPowerTwo x) = 2 ^ k \<and> unat x \<le> 2 ^ k \<and> (\<forall>j. unat x \<le> 2 ^ j \<longrightarrow> k \<le> j)"
proof -
  define y where "y = x - 1"
  have ux: "unat x = unat y + 1" using assms(1) unfolding y_def
    by (metis Suc_eq_plus1 add.commute diff_add_cancel unatSuc word_neq_0_conv word_gt_0 add_eq_0_iff_both_eq_0 less_numeral_extra(3) )
  define k where "k = (LEAST k. unat y < 2 ^ k)"
  have y31: "unat y < 2 ^ 31" using ux assms(2) by simp
  have k1: "unat y < 2 ^ k" unfolding k_def by (rule LeastI[of _ 31]) (rule y31)
  have k2: "\<And>j. unat y < 2 ^ j \<Longrightarrow> k \<le> j" unfolding k_def by (rule Least_le)
  have k31: "k \<le> 31" using k2[OF y31] .
  have "nextPowerTwo x = mask k + 1"
    using assms(1) smear_mask[OF k1 k2] by (simp add: nextPowerTwo_def smear_def y_def)
  then have "nextPowerTwo x = 2 ^ k" by (simp add: mask_eq_exp_minus_1)
  moreover have "unat (2 ^ k :: u32) = 2 ^ k"
  proof -
    have "(2::nat) ^ k \<le> 2 ^ 31" using k31 by (intro power_increasing) simp_all
    then have "(2::nat) ^ k < 2 ^ 32" by simp
    moreover have "unat (of_nat (2 ^ k) :: u32) = 2 ^ k mod 2 ^ 32" by (simp only: unat_of_nat, simp)
    ultimately show ?thesis by simp
  qed
  ultimately have "unat (nextPowerTwo x) = 2 ^ k" by simp
  moreover have "unat x \<le> 2 ^ k" using k1 ux by simp
  moreover have "\<forall>j. unat x \<le> 2 ^ j \<longrightarrow> k \<le> j" using k2 ux by simp
  ultimately show ?thesis by blast
qed

lemma newRecord_simps [simp]:
  "offset (newRecord off k v) = off" "left (newRecord off k v) = 0" "right (newRecord off k v) = 0"
  "key (newRecord off k v) = k" "val (newRecord off k v) = v"
  "rsize (newRecord off k v) = nextPowerTwo (of_nat (28 + length k + length v))"
  by (simp_all add: newRecord_def)

lemma newRecord_size:
  assumes "28 + length k + length v \<le> 2 ^ 31"
  shows "\<exists>n. unat (rsize (newRecord off k v)) = 2 ^ n \<and> 28 + length k + length v \<le> 2 ^ n \<and>
             (\<forall>j. 28 + length k + length v \<le> 2 ^ j \<longrightarrow> n \<le> j)"
proof -
  let ?x = "of_nat (28 + length k + length v) :: u32"
  have u: "unat ?x = 28 + length k + length v" by (rule unat_of_nat32) (use assms in simp)
  then have "?x \<noteq> 0" by (metis add_is_0 unat_0 zero_neq_numeral unsigned_0)
  moreover have "unat ?x \<le> 2 ^ 31" using u assms by simp
  ultimately show ?thesis using nextPowerTwo_least[of ?x] u by simp
qed

lemma newRecord_fit:
  assumes "28 + length k + length v \<le> 2 ^ 31"
  shows "28 + length k + length v \<le> unat (rsize (newRecord off k v))"
  using newRecord_size[OF assms, of off] by auto

lemma recordBytes_Nil_iff: "recordBytes rec = [] \<longleftrightarrow> rsize rec = 0"
proof -
  have "recordBytes rec = [] \<longleftrightarrow> length (recordBytes rec) = 0" by (rule length_0_conv[symmetric])
  also have "\<dots> \<longleftrightarrow> rsize rec = 0" by (simp add: unat_eq_0 del: length_0_conv)
  finally show ?thesis .
qed


section \<open>The order of the keys\<close>

lemma Compare_eq_0 [simp]: "Compare a b = 0 \<longleftrightarrow> a = b"
  by (induction a b rule: Compare.induct) auto

lemma Compare_refl [simp]: "Compare a a = 0"
  by simp

lemma Compare_gt_iff: "Compare a b > 0 \<longleftrightarrow> Compare b a < 0"
  by (induction a b rule: Compare.induct) auto

lemma Compare_trans: "Compare a b < 0 \<Longrightarrow> Compare b c < 0 \<Longrightarrow> Compare a c < 0"
proof (induction a b arbitrary: c rule: Compare.induct)
  case (1) then show ?case by simp
next
  case (2 y ys) then show ?case by (cases c) (auto split: if_splits)
next
  case (3 x xs) then show ?case by simp
next
  case (4 x xs y ys)
  then show ?case by (cases c) (auto split: if_splits)
qed

lemma Compare_cases: "Compare a b < 0 \<or> a = b \<or> Compare b a < 0"
  using Compare_gt_iff[of a b] Compare_eq_0[of a b] by linarith

lemma Compare_irrefl [simp]: "\<not> Compare a a < 0"
proof -
  have "Compare a a = 0" by (simp only: Compare_eq_0)
  then show ?thesis by linarith
qed

lemma Compare_asym: "Compare a b < 0 \<Longrightarrow> \<not> Compare b a < 0"
  using Compare_trans[of a b a] by auto

lemma Compare_lt_neq: "Compare a b < 0 \<Longrightarrow> (a = b) = False"
  by auto

lemma Compare_gt_neq: "Compare a b > 0 \<Longrightarrow> (a = b) = False"
  by auto

section \<open>Reading and writing the file\<close>

lemma WriteAt_cases:
  assumes "WriteAt f b off = Inr f'"
  shows "0 \<le> off \<and> (b = [] \<and> f' = f \<or>
           b \<noteq> [] \<and> nat off + length b < 2 ^ 63 \<and>
           f' = take (nat off) (f @ replicate (nat off - length f) 0) @ b @ drop (nat off + length b) f)"
  using assms by (auto simp: WriteAt_def split: if_splits)

lemma WriteAt_length_ge:
  assumes "WriteAt f b off = Inr f'" shows "length f \<le> length f'"
  using WriteAt_cases[OF assms] by auto

lemma WriteAt_length_inplace:
  assumes "WriteAt f b off = Inr f'" "nat off + length b \<le> length f" shows "length f' = length f"
  using WriteAt_cases[OF assms(1)] assms(2) by auto

lemma WriteAt_append:
  assumes "WriteAt f b (int (length f)) = Inr f'" shows "f' = f @ b"
  using WriteAt_cases[OF assms] by auto

lemma WriteAt_nth_outside:
  assumes "WriteAt f b off = Inr f'" "j < length f" "j < nat off \<or> nat off + length b \<le> j"
  shows "f' ! j = f ! j"
proof -
  from WriteAt_cases[OF assms(1)] consider "f' = f"
    | "f' = take (nat off) (f @ replicate (nat off - length f) 0) @ b @ drop (nat off + length b) f"
    by blast
  then show ?thesis
  proof cases
    case 1 then show ?thesis by simp
  next
    case 2
    let ?p = "take (nat off) (f @ replicate (nat off - length f) 0)"
    have lp: "length ?p = nat off" by simp
    from assms(3) show ?thesis
    proof
      assume a: "j < nat off"
      then have "j < length ?p" by (simp only: lp)
      then have "f' ! j = ?p ! j" unfolding 2 by (rule nth_append_left)
      also have "\<dots> = (f @ replicate (nat off - length f) 0) ! j" using a by (rule nth_take)
      also have "\<dots> = f ! j" using assms(2) by (rule nth_append_left)
      finally show ?thesis .
    next
      assume a: "nat off + length b \<le> j"
      then have "\<not> j < length ?p" by (simp only: lp)
      then have "f' ! j = (b @ drop (nat off + length b) f) ! (j - length ?p)"
        unfolding 2 by (simp only: nth_append if_False)
      also have "\<dots> = (b @ drop (nat off + length b) f) ! (j - nat off)" by (simp only: lp)
      finally have "f' ! j = (b @ drop (nat off + length b) f) ! (j - nat off)" .
      moreover have "\<not> j - nat off < length b" using a by arith
      then have "(b @ drop (nat off + length b) f) ! (j - nat off) =
                 drop (nat off + length b) f ! (j - nat off - length b)"
        by (simp only: nth_append if_False)
      moreover have "drop (nat off + length b) f ! (j - nat off - length b) =
                     f ! (nat off + length b + (j - nat off - length b))"
        using a assms(2) by (intro nth_drop) simp
      moreover have "nat off + length b + (j - nat off - length b) = j" using a by arith
      ultimately have "f' ! j = f ! j" by simp
      then show ?thesis .
    qed
  qed
qed


lemma ReadAt_agree:
  assumes "ReadAt f n off = Inr d" "nat off + n \<le> length f" "length f \<le> length f'"
    and "\<And>j. nat off \<le> j \<Longrightarrow> j < nat off + n \<Longrightarrow> f' ! j = f ! j"
  shows "ReadAt f' n off = Inr d"
proof -
  have "take n (drop (nat off) f') = take n (drop (nat off) f)"
  proof (rule nth_equalityI)
    show "length (take n (drop (nat off) f')) = length (take n (drop (nat off) f))"
      using assms(2,3) by simp
  next
    fix i assume "i < length (take n (drop (nat off) f'))"
    then have i: "i < n" by simp
    then have "f' ! (nat off + i) = f ! (nat off + i)" by (intro assms(4)) simp_all
    then show "take n (drop (nat off) f') ! i = take n (drop (nat off) f) ! i"
      using i assms(2,3) by simp
  qed
  then show ?thesis using assms(1,2,3) by (auto simp: ReadAt_def split: if_splits)
qed

section \<open>Records stored in the file\<close>

lemma sint_unat_small:
  fixes w :: u64
  assumes "unat w < 2 ^ 63"
  shows "sint w = int (unat w)"
proof -
  have "int (unat w) < int (2 ^ 63)" using assms by (simp only: of_nat_less_iff)
  then have "int (unat w) < 2 ^ 63" by simp
  then have b: "uint w < 2 ^ 63" by (simp only: uint_nat)
  have "(0::int) \<le> uint w" by simp
  moreover have "- (2 ^ 63) \<le> (0::int)" by simp
  ultimately have a: "- (2 ^ 63) \<le> uint w" by (rule order_trans[rotated])
  have "sint w = signed_take_bit 63 (uint w)" by (simp add: sint_uint)
  also have "\<dots> = uint w" by (rule signed_take_bit_int_eq_self[OF a b])
  finally show ?thesis by (simp only: uint_nat)
qed

lemma unat_plus_small:
  fixes w :: u64
  assumes "unat w + n < 2 ^ 63"
  shows "unat (w + of_nat n) = unat w + n"
proof -
  have "unat w + n < 2 ^ 64" using assms by simp
  then show ?thesis by (simp add: unat_word_ariths unat_of_nat)
qed

lemma readRecord_offset:
  assumes "readRecord f off = Inr r" shows "offset r = off"
  using assms by (auto simp: readRecord_def Let_def split: sum.splits if_splits)

lemma readRecord_region:
  assumes fit: "wfrec x"
    and len: "unat (offset x) + unat (rsize x) \<le> length f"
    and lim: "unat (offset x) + unat (rsize x) < 2 ^ 63"
    and reg: "take (unat (rsize x)) (drop (unat (offset x)) f) = recordBytes x"
  shows "readRecord f (offset x) = Inr x"
proof -
  let ?o = "unat (offset x)"
  let ?s = "unat (rsize x)"
  let ?kv = "length (key x) + length (val x)"
  from fit have fit': "28 + length (key x) + length (val x) \<le> ?s" by (simp add: wfrec_def)
  have so: "sint (offset x) = int ?o" using lim by (intro sint_unat_small) simp
  have o28: "unat (offset x + 28) = ?o + 28"
    using unat_plus_small[of "offset x" 28] lim fit' by simp
  have so28: "sint (offset x + 28) = int (?o + 28)"
    using lim fit' o28 sint_unat_small[of "offset x + 28"] by simp
  have s32: "?s < 2 ^ 32" using unsigned_less[of "rsize x"] by simp
  have kl: "unat (of_nat (length (key x)) :: u32) = length (key x)"
    and kvl: "unat (of_nat (length (key x)) + of_nat (length (val x)) :: u32) = ?kv"
    using fit' s32 by (simp_all add: unat_of_nat32 unat_word_ariths)
  have lay: "recordBytes x = recordHeader x @ key x @ val x @ replicate (?s - (28 + ?kv)) 0"
    using recordBytes_layout[OF fit'] by (simp add: add.assoc)
  have "take 28 (drop ?o f) = take 28 (take ?s (drop ?o f))" using fit' by simp
  also have "\<dots> = recordHeader x" by (simp add: reg lay)
  finally have h: "ReadAt f 28 (sint (offset x)) = Inr (recordHeader x)"
    using len fit' by (simp add: ReadAt_def so)
  have "take ?kv (drop (?o + 28) f) = take ?kv (drop 28 (take ?s (drop ?o f)))"
    using fit' by (simp add: drop_take add.commute)
  also have "\<dots> = key x @ val x" by (simp add: reg lay)
  finally have d: "ReadAt f ?kv (sint (offset x + 28)) = Inr (key x @ val x)"
    using len fit' by (auto simp: ReadAt_def so28 simp del: of_nat_add)
  show ?thesis
    by (simp add: readRecord_def h header_fields Let_def kl kvl d)
qed

lemma stored_readRecord:
  assumes "stored f x" "length f < 2 ^ 63"
  shows "readRecord f (offset x) = Inr x"
  using assms by (intro readRecord_region) (auto simp: stored_def)

lemma stored_agree:
  assumes "stored f x" "length f \<le> length f'"
    and "\<And>j. unat (offset x) \<le> j \<Longrightarrow> j < unat (offset x) + unat (rsize x) \<Longrightarrow> f' ! j = f ! j"
  shows "stored f' x"
proof -
  let ?o = "unat (offset x)" and ?s = "unat (rsize x)"
  from assms(1) have len: "?o + ?s \<le> length f" by (simp add: stored_def)
  have "take ?s (drop ?o f') = take ?s (drop ?o f)"
  proof (rule nth_equalityI)
    show "length (take ?s (drop ?o f')) = length (take ?s (drop ?o f))"
      using len assms(2) by simp
  next
    fix i assume "i < length (take ?s (drop ?o f'))"
    then have i: "i < ?s" by simp
    then have "f' ! (?o + i) = f ! (?o + i)" by (intro assms(3)) simp_all
    then show "take ?s (drop ?o f') ! i = take ?s (drop ?o f) ! i"
      using i len assms(2) by simp
  qed
  then show ?thesis using assms(1,2) by (auto simp: stored_def)
qed

lemma stored_WriteAt_other:
  assumes "stored f x" "WriteAt f b off = Inr f'"
    and "unat (offset x) + unat (rsize x) \<le> nat off \<or> nat off + length b \<le> unat (offset x)"
  shows "stored f' x"
proof (rule stored_agree[OF assms(1) WriteAt_length_ge[OF assms(2)]])
  fix j assume "unat (offset x) \<le> j" "j < unat (offset x) + unat (rsize x)"
  moreover from assms(1) have "unat (offset x) + unat (rsize x) \<le> length f" by (simp add: stored_def)
  ultimately show "f' ! j = f ! j"
    using assms(3) by (intro WriteAt_nth_outside[OF assms(2)]) auto
qed

lemma stored_WriteAt_same:
  assumes "wfrec x" "WriteAt f (recordBytes x) (int (unat (offset x))) = Inr f'"
  shows "stored f' x"
proof -
  let ?b = "recordBytes x" and ?o = "unat (offset x)"
  from assms(1) have "rsize x \<noteq> 0" by (auto simp: wfrec_def)
  then have ne: "?b \<noteq> []" by (simp add: recordBytes_Nil_iff)
  let ?p = "take ?o (f @ replicate (?o - length f) 0)"
  have lp: "length ?p = ?o" by simp
  from WriteAt_cases[OF assms(2)] ne
  have f': "f' = ?p @ ?b @ drop (?o + length ?b) f" by simp
  have g: "\<And>xs ys :: byte list. drop (length xs) (xs @ ys) = ys" by simp
  have "drop (length ?p) (?p @ ?b @ drop (?o + length ?b) f) = ?b @ drop (?o + length ?b) f"
    by (rule g)
  then have "drop ?o f' = ?b @ drop (?o + length ?b) f"
    unfolding f' by (simp only: lp)
  then have "take (unat (rsize x)) (drop ?o f') = ?b" by simp
  moreover have "?o + unat (rsize x) \<le> length f'" unfolding f' by simp
  ultimately show ?thesis using assms(1) by (simp add: stored_def)
qed

section \<open>The walk through a tree of the file\<close>

lemma rep_Leaf_iff: "rep f off t \<Longrightarrow> (t = Leaf \<longleftrightarrow> off = 0)"
  by (cases t) auto

lemma rep_cong:
  assumes "rep f off t" "\<And>x. x \<in> nodes t \<Longrightarrow> readRecord f' (offset x) = Inr x"
  shows "rep f' off t"
  using assms
proof (induction t arbitrary: off)
  case Leaf then show ?case by simp
next
  case (Node l r rt)
  from Node.prems(1) have o: "offset r = off" by (auto dest: readRecord_offset)
  have "readRecord f' off = Inr r" using Node.prems(2)[of r] o by simp
  moreover have "rep f' (left r) l" using Node.prems by (intro Node.IH(1)) auto
  moreover have "rep f' (right r) rt" using Node.prems by (intro Node.IH(2)) auto
  ultimately show ?case using Node.prems(1) by simp
qed

lemma rep_unique: "rep f off t \<Longrightarrow> rep f off t' \<Longrightarrow> t = t'"
proof (induction t arbitrary: off t')
  case Leaf then show ?case by (cases t') auto
next
  case (Node l r rt)
  then show ?case by (cases t') auto
qed

lemma rep_nodes_offset: "rep f off t \<Longrightarrow> x \<in> nodes t \<Longrightarrow> readRecord f (offset x) = Inr x"
proof (induction t arbitrary: off)
  case Leaf then show ?case by simp
next
  case (Node l r rt)
  from Node.prems(1) have "offset r = off" by (auto dest: readRecord_offset)
  with Node show ?case by auto
qed


lemma stop_Node:
  "stop (Node l r rt) k =
     (if Compare k (key r) < 0 \<and> l \<noteq> Leaf then stop l k
      else if Compare k (key r) > 0 \<and> rt \<noteq> Leaf then stop rt k
      else Some (Compare k (key r), r))"
  by (simp add: Let_def)

lemma stop_Some: "t \<noteq> Leaf \<Longrightarrow> \<exists>cr. stop t k = Some cr"
proof (induction t)
  case Leaf then show ?case by simp
next
  case (Node l r rt)
  show ?case unfolding stop_Node using Node.IH by (simp del: stop.simps)
qed

lemma stop_props:
  "stop t k = Some (cmp, r) \<Longrightarrow> r \<in> nodes t \<and> cmp = Compare k (key r)"
proof (induction t)
  case Leaf then show ?case by simp
next
  case (Node l r0 rt)
  show ?case
  proof (cases "Compare k (key r0) < 0 \<and> l \<noteq> Leaf")
    case True
    with Node.prems have "stop l k = Some (cmp, r)" unfolding stop_Node by (simp del: stop.simps)
    from Node.IH(1)[OF this] show ?thesis by simp
  next
    case False
    show ?thesis
    proof (cases "Compare k (key r0) > 0 \<and> rt \<noteq> Leaf")
      case True
      with False Node.prems have "stop rt k = Some (cmp, r)"
        unfolding stop_Node by (simp del: stop.simps)
      from Node.IH(2)[OF this] show ?thesis by simp
    next
      case F2: False
      with False Node.prems have "Some (Compare k (key r0), r0) = Some (cmp, r)"
        unfolding stop_Node by (simp only: if_False)
      then have "r = r0" "cmp = Compare k (key r0)" by blast+
      then show ?thesis by simp
    qed
  qed
qed
lemma binSearch_Inr:
  assumes "readRecord f off = Inr r"
  shows "binSearch f k off =
     (if Compare k (key r) < 0 \<and> left r \<noteq> 0 then binSearch f k (left r)
      else if Compare k (key r) > 0 \<and> right r \<noteq> 0 then binSearch f k (right r)
      else Some (Inr (Compare k (key r), r)))"
  by (subst binSearch.simps) (simp add: assms Let_def)

lemma binSearch_Inl:
  assumes "readRecord f off = Inl e"
  shows "binSearch f k off = Some (Inl e)"
  by (subst binSearch.simps) (simp add: assms)

lemma binSearch_stop:
  assumes "rep f off t" "t \<noteq> Leaf"
  shows "binSearch f k off = map_option Inr (stop t k)"
  using assms
proof (induction t arbitrary: off)
  case Leaf then show ?case by simp
next
  case (Node l r rt)
  from Node.prems have r: "readRecord f off = Inr r" and l: "rep f (left r) l" and rt: "rep f (right r) rt"
    by simp_all
  have ll: "l = Leaf \<longleftrightarrow> left r = 0" using rep_Leaf_iff[OF l] .
  have rr: "rt = Leaf \<longleftrightarrow> right r = 0" using rep_Leaf_iff[OF rt] .
  have il: "l \<noteq> Leaf \<Longrightarrow> binSearch f k (left r) = map_option Inr (stop l k)"
    using l by (rule Node.IH(1))
  have ir: "rt \<noteq> Leaf \<Longrightarrow> binSearch f k (right r) = map_option Inr (stop rt k)"
    using rt by (rule Node.IH(2))
  show ?case
    unfolding binSearch_Inr[OF r] stop_Node
    using il ir ll rr by (simp del: stop.simps)
qed

lemma lookup_Node:
  "lookup (Node l r rt) k =
     (if Compare k (key r) < 0 then lookup l k
      else if Compare k (key r) > 0 then lookup rt k else Some (val r))"
  by (simp add: Let_def)

lemma stop_lookup:
  "stop t k = Some (cmp, r) \<Longrightarrow> lookup t k = (if cmp = 0 then Some (val r) else None)"
proof (induction t)
  case Leaf then show ?case by simp
next
  case (Node l r0 rt)
  let ?c = "Compare k (key r0)"
  show ?case
  proof (cases "?c < 0 \<and> l \<noteq> Leaf")
    case True
    with Node.prems have "stop l k = Some (cmp, r)" unfolding stop_Node by (simp del: stop.simps)
    from Node.IH(1)[OF this] True show ?thesis unfolding lookup_Node by (simp del: lookup.simps)
  next
    case False
    show ?thesis
    proof (cases "?c > 0 \<and> rt \<noteq> Leaf")
      case True
      with False Node.prems have "stop rt k = Some (cmp, r)"
        unfolding stop_Node by (simp del: stop.simps)
      from Node.IH(2)[OF this] True show ?thesis unfolding lookup_Node by (simp del: lookup.simps)
    next
      case F2: False
      with False Node.prems have "Some (?c, r0) = Some (cmp, r)"
        unfolding stop_Node by (simp only: if_False)
      then have e: "r = r0" "cmp = ?c" by blast+
      consider "?c < 0" "l = Leaf" | "?c > 0" "rt = Leaf" | "?c = 0"
        using False F2 by linarith
      then show ?thesis
      proof cases
        case 1 then show ?thesis unfolding lookup_Node e by (simp add: Compare_lt_neq)
      next
        case 2 then show ?thesis unfolding lookup_Node e by (simp add: Compare_gt_neq)
      next
        case 3 then show ?thesis unfolding lookup_Node e by simp
      qed
    qed
  qed
qed

section \<open>Threading a record into a tree\<close>

lemma ins_Node:
  "ins n (Node l r rt) =
     (if Compare (key n) (key r) < 0
      then Node (ins n l) (if l = Leaf then r\<lparr>left := offset n\<rparr> else r) rt
      else if Compare (key n) (key r) > 0
      then Node l (if rt = Leaf then r\<lparr>right := offset n\<rparr> else r) (ins n rt)
      else Node l r rt)"
  by (simp add: Let_def)

lemma keys_ins: "key ` nodes (ins n t) = insert (key n) (key ` nodes t)"
proof (induction t)
  case Leaf then show ?case by simp
next
  case (Node l r rt)
  consider "Compare (key n) (key r) < 0" | "Compare (key n) (key r) > 0" | "key n = key r"
    using Compare_cases[of "key n" "key r"] Compare_gt_iff[of "key n" "key r"] by blast
  then show ?case
  proof cases
    case 1
    then show ?thesis unfolding ins_Node using Node.IH(1) by (auto simp del: ins.simps)
  next
    case 2
    then have "\<not> Compare (key n) (key r) < 0" by simp
    with 2 show ?thesis unfolding ins_Node using Node.IH(2) by (auto simp del: ins.simps)
  next
    case 3
    then show ?thesis unfolding ins_Node by (auto simp del: ins.simps)
  qed
qed

lemma bst_keys:
  "bst (Node l r rt) \<longleftrightarrow> bst l \<and> bst rt \<and> (\<forall>a \<in> key ` nodes l. Compare a (key r) < 0) \<and>
      (\<forall>a \<in> key ` nodes rt. Compare a (key r) > 0)"
  by auto

lemma bst_ins: "bst t \<Longrightarrow> bst (ins n t)"
proof (induction t)
  case Leaf then show ?case by simp
next
  case (Node l r rt)
  from Node.prems have b: "bst l" "bst rt"
    and kl: "\<forall>a \<in> key ` nodes l. Compare a (key r) < 0"
    and kr: "\<forall>a \<in> key ` nodes rt. Compare a (key r) > 0"
    unfolding bst_keys by blast+
  consider "Compare (key n) (key r) < 0" | "Compare (key n) (key r) > 0" | "key n = key r"
    using Compare_cases[of "key n" "key r"] Compare_gt_iff[of "key n" "key r"] by blast
  then show ?case
  proof cases
    case 1
    have "bst (Node (ins n l) (if l = Leaf then r\<lparr>left := offset n\<rparr> else r) rt)"
      unfolding bst_keys keys_ins using 1 b kl kr Node.IH(1) by simp
    then show ?thesis unfolding ins_Node using 1 by (simp only: if_True)
  next
    case 2
    then have n: "\<not> Compare (key n) (key r) < 0" by simp
    have "bst (Node l (if rt = Leaf then r\<lparr>right := offset n\<rparr> else r) (ins n rt))"
      unfolding bst_keys keys_ins using 2 b kl kr Node.IH(2) by simp
    then show ?thesis unfolding ins_Node using 2 n by (simp only: if_True if_False)
  next
    case 3
    then show ?thesis unfolding ins_Node using Node.prems by (simp del: ins.simps bst.simps)
  qed
qed

lemma lookup_Node_upd:
  assumes "key r' = key r" "val r' = val r"
  shows "lookup (Node l r' rt) k =
     (if Compare k (key r) < 0 then lookup l k
      else if Compare k (key r) > 0 then lookup rt k else Some (val r))"
  unfolding lookup_Node assms ..

lemma lookup_ins_lt:
  assumes "Compare (key n) (key r) < 0"
  shows "lookup (ins n (Node l r rt)) k =
         (if Compare k (key r) < 0 then lookup (ins n l) k else lookup (Node l r rt) k)"
proof -
  let ?rl = "if l = Leaf then r\<lparr>left := offset n\<rparr> else r"
  have kl: "key ?rl = key r" "val ?rl = val r" by simp_all
  have "ins n (Node l r rt) = Node (ins n l) ?rl rt"
    unfolding ins_Node using assms by (simp only: if_True)
  then have "lookup (ins n (Node l r rt)) k = lookup (Node (ins n l) ?rl rt) k" by (simp only:)
  also have "\<dots> = (if Compare k (key r) < 0 then lookup (ins n l) k
      else if Compare k (key r) > 0 then lookup rt k else Some (val r))"
    by (rule lookup_Node_upd[OF kl])
  also have "\<dots> = (if Compare k (key r) < 0 then lookup (ins n l) k else lookup (Node l r rt) k)"
    unfolding lookup_Node by simp
  finally show ?thesis .
qed

lemma lookup_ins_gt:
  assumes "Compare (key n) (key r) > 0"
  shows "lookup (ins n (Node l r rt)) k =
         (if Compare k (key r) > 0 then lookup (ins n rt) k else lookup (Node l r rt) k)"
proof -
  let ?rr = "if rt = Leaf then r\<lparr>right := offset n\<rparr> else r"
  have kr: "key ?rr = key r" "val ?rr = val r" by simp_all
  from assms have n: "\<not> Compare (key n) (key r) < 0" by simp
  have "ins n (Node l r rt) = Node l ?rr (ins n rt)"
    unfolding ins_Node using assms n by (simp only: if_True if_False)
  then have "lookup (ins n (Node l r rt)) k = lookup (Node l ?rr (ins n rt)) k" by (simp only:)
  also have "\<dots> = (if Compare k (key r) < 0 then lookup l k
      else if Compare k (key r) > 0 then lookup (ins n rt) k else Some (val r))"
    by (rule lookup_Node_upd[OF kr])
  also have "\<dots> = (if Compare k (key r) > 0 then lookup (ins n rt) k else lookup (Node l r rt) k)"
    unfolding lookup_Node by simp
  finally show ?thesis .
qed

lemma lookup_ins:
  "lookup (ins n t) k =
     (if k = key n \<and> lookup t k = None then Some (val n) else lookup t k)"
proof (induction t)
  case Leaf then show ?case by (simp add: Let_def)
next
  case (Node l r rt)
  consider (lt) "Compare (key n) (key r) < 0" | (gt) "Compare (key n) (key r) > 0"
    | (eq) "key n = key r"
    using Compare_cases[of "key n" "key r"] Compare_gt_iff[of "key n" "key r"] by blast
  then show ?case
  proof cases
    case lt
    show ?thesis
    proof (cases "Compare k (key r) < 0")
      case True
      then have "lookup (Node l r rt) k = lookup l k" unfolding lookup_Node by simp
      then show ?thesis unfolding lookup_ins_lt[OF lt] using True Node.IH(1)
        by (simp only: if_True)
    next
      case False
      with lt have "k \<noteq> key n" by auto
      then show ?thesis unfolding lookup_ins_lt[OF lt] using False by (simp only: if_False simp_thms)
    qed
  next
    case gt
    show ?thesis
    proof (cases "Compare k (key r) > 0")
      case True
      then have "lookup (Node l r rt) k = lookup rt k" unfolding lookup_Node by simp
      then show ?thesis unfolding lookup_ins_gt[OF gt] using True Node.IH(2)
        by (simp only: if_True)
    next
      case False
      with gt have "k \<noteq> key n" by auto
      then show ?thesis unfolding lookup_ins_gt[OF gt] using False by (simp only: if_False simp_thms)
    qed
  next
    case eq
    then have i: "ins n (Node l r rt) = Node l r rt"
      unfolding ins_Node by (simp del: ins.simps)
    show ?thesis
    proof (cases "k = key n")
      case True
      then have "lookup (Node l r rt) k = Some (val r)" unfolding lookup_Node using eq by simp
      then show ?thesis unfolding i by simp
    next
      case False
      then show ?thesis unfolding i by simp
    qed
  qed
qed

lemma bst_distinct:
  assumes "bst (Node l r rt)"
  shows "r \<notin> nodes l" "r \<notin> nodes rt" "nodes l \<inter> nodes rt = {}"
proof -
  from assms have kl: "\<And>x. x \<in> nodes l \<Longrightarrow> Compare (key x) (key r) < 0"
    and kr: "\<And>x. x \<in> nodes rt \<Longrightarrow> Compare (key x) (key r) > 0" by auto
  show "r \<notin> nodes l" using kl[of r] by auto
  show "r \<notin> nodes rt" using kr[of r] by auto
  show "nodes l \<inter> nodes rt = {}"
  proof (rule ccontr)
    assume "nodes l \<inter> nodes rt \<noteq> {}"
    then obtain x where "x \<in> nodes l" "x \<in> nodes rt" by blast
    then have "Compare (key x) (key r) < 0" "Compare (key x) (key r) > 0"
      using kl kr by blast+
    then show False by simp
  qed
qed

lemma ins_step:
  assumes "rep f off t" "bst t" "stop t (key n) = Some (cmp, r)"
    and n: "left n = 0" "right n = 0" "offset n \<noteq> 0" "readRecord f' (offset n) = Inr n"
    and others: "\<And>x. x \<in> nodes t \<Longrightarrow> x \<noteq> r \<Longrightarrow> readRecord f' (offset x) = Inr x"
    and r': "r' = (if cmp = 0 then r else if cmp < 0 then r\<lparr>left := offset n\<rparr>
                   else r\<lparr>right := offset n\<rparr>)"
    and rr': "readRecord f' (offset r) = Inr r'"
  shows "rep f' off (ins n t) \<and>
         nodes (ins n t) \<subseteq> (if cmp = 0 then nodes t else insert n (insert r' (nodes t - {r})))"
  using assms(1,2,3) others
proof (induction t arbitrary: off)
  case Leaf then show ?case by simp
next
  case (Node l r0 rt)
  let ?c = "Compare (key n) (key r0)"
  from Node.prems(1) have r0: "readRecord f off = Inr r0" and off0: "off \<noteq> 0"
    and l: "rep f (left r0) l" and rt: "rep f (right r0) rt" by simp_all
  have o0: "offset r0 = off" using readRecord_offset[OF r0] .
  from Node.prems(2) have bl: "bst l" and brt: "bst rt" by simp_all
  note d = bst_distinct[OF Node.prems(2)]
  have ll: "l = Leaf \<longleftrightarrow> left r0 = 0" using rep_Leaf_iff[OF l] .
  have lr: "rt = Leaf \<longleftrightarrow> right r0 = 0" using rep_Leaf_iff[OF rt] .
  have nleaf: "rep f' (offset n) (Node Leaf n Leaf)" using n by simp
  show ?case
  proof (cases "?c < 0 \<and> l \<noteq> Leaf")
    case True
    with Node.prems(3) have st: "stop l (key n) = Some (cmp, r)"
      unfolding stop_Node by (simp del: stop.simps)
    from stop_props[OF st] have rl: "r \<in> nodes l" by simp
    then have ne: "r0 \<noteq> r" and nrt: "r \<notin> nodes rt" using d by auto
    have i: "ins n (Node l r0 rt) = Node (ins n l) r0 rt"
      unfolding ins_Node using True by (simp del: ins.simps)
    have IH: "rep f' (left r0) (ins n l) \<and>
        nodes (ins n l) \<subseteq> (if cmp = 0 then nodes l else insert n (insert r' (nodes l - {r})))"
      using l bl st Node.prems(4) by (intro Node.IH(1)) auto
    have "readRecord f' off = Inr r0" using Node.prems(4)[of r0] ne o0 by simp
    moreover have "rep f' (right r0) rt"
      using rt by (rule rep_cong) (use Node.prems(4) nrt in auto)
    ultimately have "rep f' off (Node (ins n l) r0 rt)" using IH off0 by simp
    moreover have "nodes (Node (ins n l) r0 rt)
        \<subseteq> (if cmp = 0 then nodes (Node l r0 rt) else insert n (insert r' (nodes (Node l r0 rt) - {r})))"
      using IH ne nrt by (auto split: if_splits)
    ultimately show ?thesis unfolding i by blast
  next
    case False
    show ?thesis
    proof (cases "?c > 0 \<and> rt \<noteq> Leaf")
      case True
      then have nlt: "\<not> ?c < 0" by simp
      from True nlt Node.prems(3) have st: "stop rt (key n) = Some (cmp, r)"
        unfolding stop_Node by (simp del: stop.simps)
      from stop_props[OF st] have rl: "r \<in> nodes rt" by simp
      then have ne: "r0 \<noteq> r" and nrt: "r \<notin> nodes l" using d by auto
      have i: "ins n (Node l r0 rt) = Node l r0 (ins n rt)"
        unfolding ins_Node using True nlt by (simp del: ins.simps)
      have IH: "rep f' (right r0) (ins n rt) \<and>
          nodes (ins n rt) \<subseteq> (if cmp = 0 then nodes rt else insert n (insert r' (nodes rt - {r})))"
        using rt brt st Node.prems(4) by (intro Node.IH(2)) auto
      have "readRecord f' off = Inr r0" using Node.prems(4)[of r0] ne o0 by simp
      moreover have "rep f' (left r0) l"
        using l by (rule rep_cong) (use Node.prems(4) nrt in auto)
      ultimately have "rep f' off (Node l r0 (ins n rt))" using IH off0 by simp
      moreover have "nodes (Node l r0 (ins n rt))
          \<subseteq> (if cmp = 0 then nodes (Node l r0 rt) else insert n (insert r' (nodes (Node l r0 rt) - {r})))"
        using IH ne nrt by (auto split: if_splits)
      ultimately show ?thesis unfolding i by blast
    next
      case F2: False
      with False Node.prems(3) have "Some (?c, r0) = Some (cmp, r)"
        unfolding stop_Node by (simp only: if_False)
      then have e: "r = r0" "cmp = ?c" by blast+
      have rl: "rep f' (left r0) l"
        using l by (rule rep_cong) (use Node.prems(4) d e in auto)
      have rrt: "rep f' (right r0) rt"
        using rt by (rule rep_cong) (use Node.prems(4) d e in auto)
      have rd: "readRecord f' off = Inr r'" using rr' e o0 by simp
      consider (lt) "?c < 0" "l = Leaf" | (gt) "?c > 0" "rt = Leaf" | (eq) "?c = 0"
        using False F2 by linarith
      then show ?thesis
      proof cases
        case lt
        then have i: "ins n (Node l r0 rt) = Node (Node Leaf n Leaf) (r0\<lparr>left := offset n\<rparr>) rt"
          unfolding ins_Node by (simp del: Compare_eq_0)
        from e(2) lt(1) have c: "cmp < 0" by (simp only:)
        then have c0: "cmp \<noteq> 0" by linarith
        have r'e: "r' = r0\<lparr>left := offset n\<rparr>" by (simp only: r' c0 c if_False if_True e(1))
        have "rep f' off (Node (Node Leaf n Leaf) (r0\<lparr>left := offset n\<rparr>) rt)"
          using rd off0 nleaf rrt r'e by simp
        then show ?thesis unfolding i using c0 e(1) r'e d by auto
      next
        case gt
        then have nlt: "\<not> ?c < 0" by simp
        from gt nlt have i: "ins n (Node l r0 rt) = Node l (r0\<lparr>right := offset n\<rparr>) (Node Leaf n Leaf)"
          unfolding ins_Node by (simp del: Compare_eq_0)
        from e(2) gt(1) have c: "cmp > 0" by (simp only:)
        then have c0: "cmp \<noteq> 0" and c1: "\<not> cmp < 0" by linarith+
        have r'e: "r' = r0\<lparr>right := offset n\<rparr>" by (simp only: r' c0 c1 if_False if_True e(1))
        have "rep f' off (Node l (r0\<lparr>right := offset n\<rparr>) (Node Leaf n Leaf))"
          using rd off0 nleaf rl r'e by simp
        then show ?thesis unfolding i using c0 e(1) r'e d by auto
      next
        case eq
        then have i: "ins n (Node l r0 rt) = Node l r0 rt"
          unfolding ins_Node by (simp del: Compare_eq_0)
        from e(2) eq have c0: "cmp = 0" by (simp only:)
        have r'e: "r' = r0" unfolding r' e(1) c0 by simp
        have "rep f' off (Node l r0 rt)" using rd off0 rl rrt r'e by simp
        then show ?thesis unfolding i using c0 by simp
      qed
    qed
  qed
qed

section \<open>The bucket of a key\<close>

lemma push_byte_zero: "0 < i \<Longrightarrow> push_bit (8 * i) (b :: byte) = 0"
  by (rule bit_word_eqI) (auto simp: bit_simps)

lemma bucket_first_byte:
  "bucket db k = ucast (md5_sum k ! 0) AND drop_bit (unat (64 - nbuckets db)) (- 1)"
  by (simp add: bucket_def push_byte_zero[of 1, simplified] push_byte_zero[of 2, simplified]
      push_byte_zero[of 3, simplified] push_byte_zero[of 4, simplified] push_byte_zero[of 5, simplified]
      push_byte_zero[of 6, simplified] push_byte_zero[of 7, simplified])

lemma bucket_cong: "nbuckets db' = nbuckets db \<Longrightarrow> bucket db' k = bucket db k"
  by (simp add: bucket_first_byte)

lemma drop_bit_minus_one:
  assumes "n \<le> 64"
  shows "drop_bit (64 - n) (- 1 :: u64) = mask n"
  using assms by (intro bit_word_eqI) (auto simp: bit_simps)

lemma unat_64_minus:
  fixes nb :: u32
  assumes "unat nb \<le> 64"
  shows "unat (64 - nb) = 64 - unat nb"
proof -
  have "nb \<le> 64" using assms by (simp add: word_le_nat_alt)
  then show ?thesis by (simp add: unat_sub)
qed

lemma bucket_mask:
  assumes "unat (nbuckets db) \<le> 64"
  shows "bucket db k = ucast (md5_sum k ! 0) AND mask (unat (nbuckets db))"
  using assms by (simp add: bucket_first_byte unat_64_minus drop_bit_minus_one)

lemma bucket_less:
  assumes "unat (nbuckets db) < 64"
  shows "unat (bucket db k) < 2 ^ unat (nbuckets db)"
proof -
  let ?n = "unat (nbuckets db)"
  have "uint (bucket db k) < 2 ^ ?n"
    using assms by (simp add: bucket_mask and_mask_lt_2p)
  then have "int (unat (bucket db k)) < int (2 ^ ?n)" by (simp only: uint_nat) simp
  then show ?thesis by (simp only: of_nat_less_iff)
qed

lemma bucket_zero: "nbuckets db = 0 \<Longrightarrow> bucket db k = 0"
  by (simp add: bucket_first_byte)

section \<open>The directory under \<^verbatim>\<open>Set\<close>\<close>

lemma writeBuckets_fields [simp]:
  "nbuckets (writeBuckets db) = nbuckets db" "buckets (writeBuckets db) = buckets db"
  by (simp_all add: writeBuckets_def Let_def split: sum.splits prod.splits)

lemma writeLink_fields [simp]:
  "nbuckets (writeLink db r) = nbuckets db" "buckets (writeLink db r) = buckets db"
  by (simp_all add: writeLink_def split: sum.splits)

lemma appendRecord_fields [simp]:
  "nbuckets (snd (appendRecord db off k v)) = nbuckets db"
  "buckets (snd (appendRecord db off k v)) = buckets db"
  by (simp_all add: appendRecord_def split: sum.splits)

lemma Set_cases:
  assumes "Set db k v = Some (e, db')"
  obtains (seek) "2 ^ 63 \<le> length (dbfile db)" "e = Some IOError" "db' = db"
  | (panic) "length (dbfile db) < 2 ^ 63" "length (buckets db) \<le> unat (bucket db k)"
      "e = Some Panic" "db' = db"
  | (empty) "length (dbfile db) < 2 ^ 63" "unat (bucket db k) < length (buckets db)"
      "buckets db ! unat (bucket db k) = 0"
      "(e, db') = appendRecord
          (writeBuckets (db\<lparr>buckets := (buckets db)[unat (bucket db k) := of_nat (length (dbfile db))]\<rparr>))
          (of_nat (length (dbfile db))) k v"
  | (err) err where "length (dbfile db) < 2 ^ 63" "unat (bucket db k) < length (buckets db)"
      "buckets db ! unat (bucket db k) \<noteq> 0"
      "binSearch (dbfile db) k (buckets db ! unat (bucket db k)) = Some (Inl err)"
      "e = Some err" "db' = db"
  | (found) cmp other where "length (dbfile db) < 2 ^ 63" "unat (bucket db k) < length (buckets db)"
      "buckets db ! unat (bucket db k) \<noteq> 0"
      "binSearch (dbfile db) k (buckets db ! unat (bucket db k)) = Some (Inr (cmp, other))"
      "(e, db') = appendRecord
          (if cmp = 0 then db
           else if cmp < 0 then writeLink db (other\<lparr>left := of_nat (length (dbfile db))\<rparr>)
           else writeLink db (other\<lparr>right := of_nat (length (dbfile db))\<rparr>))
          (of_nat (length (dbfile db))) k v"
proof (cases "2 ^ 63 \<le> length (dbfile db)")
  case True
  with assms show ?thesis by (intro seek) (simp_all add: Set_def)
next
  case F1: False
  show ?thesis
  proof (cases "length (buckets db) \<le> unat (bucket db k)")
    case True
    with F1 assms show ?thesis by (intro panic) (simp_all add: Set_def Let_def)
  next
    case F2: False
    show ?thesis
    proof (cases "buckets db ! unat (bucket db k) = 0")
      case True
      with F1 F2 assms show ?thesis by (intro empty) (simp_all add: Set_def Let_def)
    next
      case F3: False
      from F1 F2 F3 assms
      have S: "(case binSearch (dbfile db) k (buckets db ! unat (bucket db k)) of
                None \<Rightarrow> None
              | Some (Inl e) \<Rightarrow> Some (Some e, db)
              | Some (Inr (cmp, other)) \<Rightarrow>
                  Some (appendRecord
                          (if cmp = 0 then db
                           else if cmp < 0 then writeLink db (other\<lparr>left := of_nat (length (dbfile db))\<rparr>)
                           else writeLink db (other\<lparr>right := of_nat (length (dbfile db))\<rparr>))
                          (of_nat (length (dbfile db))) k v)) = Some (e, db')"
        by (simp add: Set_def Let_def)
      show ?thesis
      proof (cases "binSearch (dbfile db) k (buckets db ! unat (bucket db k))")
        case None with S show ?thesis by simp
      next
        case (Some res)
        show ?thesis
        proof (cases res)
          case (Inl err)
          with Some S F1 F2 F3 show ?thesis by (intro err[of err]) simp_all
        next
          case (Inr p)
          obtain cmp other where p: "p = (cmp, other)" by (cases p)
          with Inr Some S F1 F2 F3 show ?thesis by (intro found[of cmp other]) simp_all
        qed
      qed
    qed
  qed
qed

lemma Set_buckets:
  assumes "Set db k v = Some (e, db')"
  shows "nbuckets db' = nbuckets db \<and> length (buckets db') = length (buckets db) \<and>
         (\<forall>i<length (buckets db). buckets db ! i \<noteq> 0 \<longrightarrow> buckets db' ! i = buckets db ! i)"
  using assms
proof (cases rule: Set_cases)
  case empty
  from empty(4) have "db' = snd (appendRecord
          (writeBuckets (db\<lparr>buckets := (buckets db)[unat (bucket db k) := of_nat (length (dbfile db))]\<rparr>))
          (of_nat (length (dbfile db))) k v)" by (metis snd_conv)
  then have b: "buckets db' = (buckets db)[unat (bucket db k) := of_nat (length (dbfile db))]"
    and nb: "nbuckets db' = nbuckets db" by simp_all
  have "buckets db' ! i = buckets db ! i" if "buckets db ! i \<noteq> 0" for i
  proof -
    from that empty(3) have "unat (bucket db k) \<noteq> i" by auto
    then show ?thesis unfolding b by (rule nth_list_update_neq)
  qed
  then show ?thesis using b nb by simp
next
  case (found cmp other)
  from found(5) have "db' = snd (appendRecord
          (if cmp = 0 then db
           else if cmp < 0 then writeLink db (other\<lparr>left := of_nat (length (dbfile db))\<rparr>)
           else writeLink db (other\<lparr>right := of_nat (length (dbfile db))\<rparr>))
          (of_nat (length (dbfile db))) k v)" by (metis snd_conv)
  then show ?thesis by simp
qed simp_all

lemma run_buckets:
  assumes "run db ops = Some db'"
  shows "nbuckets db' = nbuckets db \<and> length (buckets db') = length (buckets db) \<and>
         (\<forall>i<length (buckets db). buckets db ! i \<noteq> 0 \<longrightarrow> buckets db' ! i = buckets db ! i)"
  using assms
proof (induction db ops rule: run.induct)
  case (1 db) then show ?case by simp
next
  case (2 db k v ops)
  from "2.prems" obtain e db1 where s: "Set db k v = Some (e, db1)" and r: "run db1 ops = Some db'"
    by (auto split: option.splits)
  from Set_buckets[OF s] "2.IH"[OF s refl r] show ?case by auto
next
  case (3 db k ops)
  from "3.prems" obtain g where g: "Get db k = Some g" and r: "run db ops = Some db'"
    by (auto split: option.splits)
  from "3.IH"[OF g r] show ?case .
qed

section \<open>\<^verbatim>\<open>Create\<close> and the directory in the file\<close>

lemma length_concat_be64 [simp]: "length (concat (map be64 bs)) = 8 * length bs"
  by (induction bs) simp_all

lemma writeBuckets_frame:
  assumes "4 + 8 * length (buckets db) \<le> length (dbfile db)" "length (dbfile db) < 2 ^ 63"
  shows "length (dbfile (writeBuckets db)) = length (dbfile db)"
    and "\<And>j. 4 + 8 * length (buckets db) \<le> j \<Longrightarrow> j < length (dbfile db) \<Longrightarrow>
           dbfile (writeBuckets db) ! j = dbfile db ! j"
proof -
  let ?f = "dbfile db"
  let ?d = "concat (map be64 (buckets db))"
  have "\<exists>f1. WriteAt ?f (be32 (nbuckets db)) 0 = Inr f1"
    by (simp add: WriteAt_def be32_def)
  then obtain f1 where w1: "WriteAt ?f (be32 (nbuckets db)) 0 = Inr f1" ..
  have l1: "length f1 = length ?f"
    using WriteAt_length_inplace[OF w1] assms(1) by simp
  have n1: "\<And>j. 4 \<le> j \<Longrightarrow> j < length ?f \<Longrightarrow> f1 ! j = ?f ! j"
    using WriteAt_nth_outside[OF w1] by simp
  have "\<exists>f2. WriteAt f1 ?d 4 = Inr f2"
    using assms l1 by (simp add: WriteAt_def)
  then obtain f2 where w2: "WriteAt f1 ?d 4 = Inr f2" ..
  have l2: "length f2 = length f1"
    using WriteAt_length_inplace[OF w2] assms(1) l1 by simp
  have n2: "\<And>j. 4 + 8 * length (buckets db) \<le> j \<Longrightarrow> j < length f1 \<Longrightarrow> f2 ! j = f1 ! j"
    using WriteAt_nth_outside[OF w2] by simp
  have e: "dbfile (writeBuckets db) = f2"
    by (simp add: writeBuckets_def w1 w2)
  show "length (dbfile (writeBuckets db)) = length (dbfile db)" using e l1 l2 by simp
  show "dbfile (writeBuckets db) ! j = dbfile db ! j"
    if "4 + 8 * length (buckets db) \<le> j" "j < length (dbfile db)" for j
    using that e n1[of j] n2[of j] l1 by simp
qed

lemma length_concat_replicate [simp]: "length (concat (replicate n xs)) = n * length xs"
  by (induction n) simp_all

lemma Create_small:
  assumes "unat nb < 60"
  shows "Create nb = Inr \<lparr>nbuckets = nb, buckets = replicate (2 ^ unat nb) 0,
                          dbfile = be32 nb @ concat (replicate (2 ^ unat nb) (be64 0))\<rparr>"
proof -
  let ?N = "(2::nat) ^ unat nb"
  let ?n = "2 ^ unat nb :: u64"
  have p: "?N < 2 ^ 60" using assms by (intro power_strict_increasing) simp_all
  have u: "unat ?n = ?N"
  proof -
    have "?n = of_nat ?N" by simp
    moreover have "?N < 2 ^ 64" using p by simp
    ultimately show ?thesis by (simp only: unat_of_nat) simp
  qed
  have s: "sint ?n = int ?N" using u p sint_unat_small[of ?n] by simp
  have N0: "0 < ?N" by simp
  have c: "Create nb = Inr (writeBuckets \<lparr>nbuckets = nb, buckets = replicate ?N 0, dbfile = []\<rparr>)"
    using p by (simp add: Create_def Let_def u s)
  have w1: "WriteAt [] (be32 nb) 0 = Inr (be32 nb)" by (simp add: WriteAt_def be32_def)
  have ne: "concat (replicate ?N (be64 0)) \<noteq> []"
  proof
    assume "concat (replicate ?N (be64 0)) = []"
    then have "length (concat (replicate ?N (be64 0))) = 0" by simp
    then show False by (simp del: length_0_conv)
  qed
  have l: "4 + ?N * 8 < 2 ^ 63" using p by simp
  have w2: "WriteAt (be32 nb) (concat (replicate ?N (be64 0))) 4
              = Inr (be32 nb @ concat (replicate ?N (be64 0)))"
    using ne l by (simp add: WriteAt_def del: concat_replicate_trivial)
  show ?thesis unfolding c by (simp add: writeBuckets_def w1 w2)
qed

lemma Create_inv:
  assumes "Create nb = Inr db" "unat nb < 60"
  shows "inv db {} (\<lambda>_. Leaf)"
proof -
  have p: "(2::nat) ^ unat nb < 2 ^ 60" using assms(2) by (intro power_strict_increasing) simp_all
  from assms Create_small[OF assms(2)] have
    db: "db = \<lparr>nbuckets = nb, buckets = replicate (2 ^ unat nb) 0,
                dbfile = be32 nb @ concat (replicate (2 ^ unat nb) (be64 0))\<rparr>" by simp
  show ?thesis unfolding inv_def db using assms(2) p by simp
qed

section \<open>The writes of \<^verbatim>\<open>Set\<close>\<close>

lemma unat_of_nat_len:
  assumes "n < 2 ^ 63"
  shows "unat (of_nat n :: u64) = n" "sint (of_nat n :: u64) = int n"
proof -
  have "n < 2 ^ 64" using assms by simp
  then show u: "unat (of_nat n :: u64) = n" by (simp only: unat_of_nat) simp
  show "sint (of_nat n :: u64) = int n" using sint_unat_small[of "of_nat n"] u assms by simp
qed

lemma appendRecord_eq:
  assumes "length (dbfile db) < 2 ^ 63"
  shows "appendRecord db (of_nat (length (dbfile db))) k v =
     (if rsize (newRecord (of_nat (length (dbfile db))) k v) = 0 then (None, db)
      else if 2 ^ 63 \<le> length (dbfile db) + unat (rsize (newRecord (of_nat (length (dbfile db))) k v))
      then (Some IOError, db)
      else (None, db\<lparr>dbfile := dbfile db @ recordBytes (newRecord (of_nat (length (dbfile db))) k v)\<rparr>))"
proof -
  let ?n = "newRecord (of_nat (length (dbfile db))) k v"
  have s: "sint (of_nat (length (dbfile db)) :: u64) = int (length (dbfile db))"
    using unat_of_nat_len(2)[OF assms] .
  show ?thesis
    by (simp add: appendRecord_def writeRecord_def WriteAt_def s recordBytes_Nil_iff
        del: newRecord_simps(6))
qed

lemma writeLink_eq:
  assumes st: "stored f r" and len: "length f < 2 ^ 63" and f: "dbfile db = f"
    and r': "offset r' = offset r" "rsize r' = rsize r" "key r' = key r" "val r' = val r"
  shows "\<exists>f1. writeLink db r' = db\<lparr>dbfile := f1\<rparr> \<and> length f1 = length f \<and> stored f1 r' \<and>
           (\<forall>j<length f. j < unat (offset r) \<or> unat (offset r) + unat (rsize r) \<le> j \<longrightarrow> f1 ! j = f ! j)"
proof -
  from st have wf: "wfrec r" and reg: "unat (offset r) + unat (rsize r) \<le> length f"
    by (simp_all add: stored_def)
  have wf': "wfrec r'" using wf r' by (simp add: wfrec_def)
  have o63: "unat (offset r') < 2 ^ 63" using reg len r' by simp
  have so: "sint (offset r') = int (unat (offset r'))" using o63 by (rule sint_unat_small)
  have ne: "recordBytes r' \<noteq> []" using wf' by (auto simp: recordBytes_Nil_iff wfrec_def)
  have lim: "unat (offset r') + length (recordBytes r') < 2 ^ 63" using reg len r' by simp
  let ?f1 = "take (unat (offset r')) (f @ replicate (unat (offset r') - length f) 0) @
             recordBytes r' @ drop (unat (offset r') + length (recordBytes r')) f"
  have w: "WriteAt f (recordBytes r') (int (unat (offset r'))) = Inr ?f1"
    using ne lim by (simp add: WriteAt_def)
  have "writeLink db r' = db\<lparr>dbfile := ?f1\<rparr>"
    using w by (simp add: writeLink_def writeRecord_def so f)
  moreover have "length ?f1 = length f"
    using WriteAt_length_inplace[OF w] reg r' by simp
  moreover have "stored ?f1 r'" using stored_WriteAt_same[OF wf' w] .
  moreover have "\<forall>j<length f. j < unat (offset r) \<or> unat (offset r) + unat (rsize r) \<le> j \<longrightarrow> ?f1 ! j = f ! j"
    using WriteAt_nth_outside[OF w] r' by simp
  ultimately show ?thesis by blast
qed

lemma WriteAt_append_commute:
  assumes "WriteAt f b off = Inr f1" "nat off + length b \<le> length f"
  shows "WriteAt (f @ c) b off = Inr (f1 @ c)"
proof -
  from WriteAt_cases[OF assms(1)] have o: "0 \<le> off" by simp
  show ?thesis
  proof (cases "b = []")
    case True
    with assms(1) o show ?thesis by (simp add: WriteAt_def)
  next
    case False
    with WriteAt_cases[OF assms(1)] have
      lim: "nat off + length b < 2 ^ 63" and
      f1: "f1 = take (nat off) (f @ replicate (nat off - length f) 0) @ b @ drop (nat off + length b) f"
      by simp_all
    from assms(2) have a: "nat off \<le> length f" by simp
    show ?thesis using False o lim a assms(2) by (simp add: WriteAt_def f1)
  qed
qed

lemma writeBuckets_eq:
  assumes "4 + 8 * length (buckets db) \<le> length (dbfile db)" "length (dbfile db) < 2 ^ 63"
  shows "\<exists>f1 f2. WriteAt (dbfile db) (be32 (nbuckets db)) 0 = Inr f1 \<and> length f1 = length (dbfile db) \<and>
           WriteAt f1 (concat (map be64 (buckets db))) 4 = Inr f2 \<and>
           writeBuckets db = db\<lparr>dbfile := f2\<rparr>"
proof -
  let ?f = "dbfile db"
  have "\<exists>f1. WriteAt ?f (be32 (nbuckets db)) 0 = Inr f1"
    by (simp add: WriteAt_def be32_def)
  then obtain f1 where w1: "WriteAt ?f (be32 (nbuckets db)) 0 = Inr f1" ..
  have l1: "length f1 = length ?f"
    using WriteAt_length_inplace[OF w1] assms(1) by simp
  have "\<exists>f2. WriteAt f1 (concat (map be64 (buckets db))) 4 = Inr f2"
    using assms l1 by (simp add: WriteAt_def)
  then obtain f2 where w2: "WriteAt f1 (concat (map be64 (buckets db))) 4 = Inr f2" ..
  have "writeBuckets db = db\<lparr>dbfile := f2\<rparr>"
    by (simp add: writeBuckets_def w1 w2)
  with w1 l1 w2 show ?thesis by blast
qed

lemma writeBuckets_append:
  assumes "4 + 8 * length (buckets db) \<le> length (dbfile db)" "length (dbfile db) < 2 ^ 63"
  shows "writeBuckets (db\<lparr>dbfile := dbfile db @ c\<rparr>) =
         (writeBuckets db)\<lparr>dbfile := dbfile (writeBuckets db) @ c\<rparr>"
proof -
  from writeBuckets_eq[OF assms] obtain f1 f2 where
    w1: "WriteAt (dbfile db) (be32 (nbuckets db)) 0 = Inr f1" and l1: "length f1 = length (dbfile db)"
    and w2: "WriteAt f1 (concat (map be64 (buckets db))) 4 = Inr f2"
    and e: "writeBuckets db = db\<lparr>dbfile := f2\<rparr>" by blast
  have a1: "WriteAt (dbfile db @ c) (be32 (nbuckets db)) 0 = Inr (f1 @ c)"
    using assms(1) by (intro WriteAt_append_commute[OF w1]) simp
  have a2: "WriteAt (f1 @ c) (concat (map be64 (buckets db))) 4 = Inr (f2 @ c)"
    using assms(1) l1 by (intro WriteAt_append_commute[OF w2]) simp
  show ?thesis unfolding e by (simp add: writeBuckets_def a1 a2)
qed

lemma writeLink_append:
  assumes st: "stored f r" and len: "length f < 2 ^ 63" and f: "dbfile db = f"
    and r': "offset r' = offset r" "rsize r' = rsize r" "key r' = key r" "val r' = val r"
  shows "writeLink (db\<lparr>dbfile := f @ c\<rparr>) r' =
         (writeLink db r')\<lparr>dbfile := dbfile (writeLink db r') @ c\<rparr>"
proof -
  from st have reg: "unat (offset r) + unat (rsize r) \<le> length f"
    by (simp_all add: stored_def)
  have o63: "unat (offset r') < 2 ^ 63" using reg len r' by simp
  have so: "sint (offset r') = int (unat (offset r'))" using o63 by (rule sint_unat_small)
  from writeLink_eq[OF st len f r'] obtain f1 where w: "writeLink db r' = db\<lparr>dbfile := f1\<rparr>"
    by blast
  have "\<exists>g. WriteAt f (recordBytes r') (sint (offset r')) = Inr g"
    unfolding so using reg len r' by (simp add: WriteAt_def)
  then obtain g where g: "WriteAt f (recordBytes r') (sint (offset r')) = Inr g" ..
  have n: "nat (sint (offset r')) = unat (offset r')" unfolding so by simp
  have "writeLink db r' = db\<lparr>dbfile := g\<rparr>" by (simp add: writeLink_def writeRecord_def f g)
  moreover have "WriteAt (f @ c) (recordBytes r') (sint (offset r')) = Inr (g @ c)"
    using reg r' n by (intro WriteAt_append_commute[OF g]) simp
  then have "writeLink (db\<lparr>dbfile := f @ c\<rparr>) r' = db\<lparr>dbfile := g @ c\<rparr>"
    by (simp add: writeLink_def writeRecord_def)
  ultimately show ?thesis by simp
qed

section \<open>The invariant of the database\<close>

lemma invD:
  assumes "inv db R T"
  shows "unat (nbuckets db) < 60" "length (buckets db) = 2 ^ unat (nbuckets db)"
    "4 + 8 * length (buckets db) \<le> length (dbfile db)" "length (dbfile db) < 2 ^ 63"
    "\<And>x. x \<in> R \<Longrightarrow> stored (dbfile db) x"
    "\<And>x. x \<in> R \<Longrightarrow> 4 + 8 * length (buckets db) \<le> unat (offset x)"
    "\<And>x. x \<in> R \<Longrightarrow> left x \<noteq> 0 \<Longrightarrow> offset x < left x"
    "\<And>x. x \<in> R \<Longrightarrow> right x \<noteq> 0 \<Longrightarrow> offset x < right x"
    "\<And>x y. x \<in> R \<Longrightarrow> y \<in> R \<Longrightarrow> x \<noteq> y \<Longrightarrow>
        unat (offset x) + unat (rsize x) \<le> unat (offset y) \<or>
        unat (offset y) + unat (rsize y) \<le> unat (offset x)"
    "\<And>i. i < length (buckets db) \<Longrightarrow> rep (dbfile db) (buckets db ! i) (T i)"
    "\<And>i. i < length (buckets db) \<Longrightarrow> bst (T i)"
    "\<And>i. i < length (buckets db) \<Longrightarrow> nodes (T i) \<subseteq> R"
    "\<And>i x. i < length (buckets db) \<Longrightarrow> x \<in> nodes (T i) \<Longrightarrow> unat (bucket db (key x)) = i"
proof -
  from assms have a: "unat (nbuckets db) < 60 \<and> length (buckets db) = 2 ^ unat (nbuckets db) \<and>
     4 + 8 * length (buckets db) \<le> length (dbfile db) \<and> length (dbfile db) < 2 ^ 63 \<and>
     (\<forall>x\<in>R. stored (dbfile db) x \<and> 4 + 8 * length (buckets db) \<le> unat (offset x) \<and>
            (left x \<noteq> 0 \<longrightarrow> offset x < left x) \<and> (right x \<noteq> 0 \<longrightarrow> offset x < right x)) \<and>
     (\<forall>x\<in>R. \<forall>y\<in>R. x \<noteq> y \<longrightarrow>
            unat (offset x) + unat (rsize x) \<le> unat (offset y) \<or>
            unat (offset y) + unat (rsize y) \<le> unat (offset x)) \<and>
     (\<forall>i<length (buckets db). rep (dbfile db) (buckets db ! i) (T i) \<and> bst (T i) \<and>
            nodes (T i) \<subseteq> R \<and> (\<forall>x\<in>nodes (T i). unat (bucket db (key x)) = i))"
    unfolding inv_def .
  note c1 = a[THEN conjunct1]
  note c2 = a[THEN conjunct2, THEN conjunct1]
  note c3 = a[THEN conjunct2, THEN conjunct2, THEN conjunct1]
  note c4 = a[THEN conjunct2, THEN conjunct2, THEN conjunct2, THEN conjunct1]
  note c5 = a[THEN conjunct2, THEN conjunct2, THEN conjunct2, THEN conjunct2, THEN conjunct1]
  note c6 = a[THEN conjunct2, THEN conjunct2, THEN conjunct2, THEN conjunct2, THEN conjunct2, THEN conjunct1]
  note c7 = a[THEN conjunct2, THEN conjunct2, THEN conjunct2, THEN conjunct2, THEN conjunct2, THEN conjunct2]
  show "unat (nbuckets db) < 60" by (rule c1)
  show "length (buckets db) = 2 ^ unat (nbuckets db)" by (rule c2)
  show "4 + 8 * length (buckets db) \<le> length (dbfile db)" by (rule c3)
  show "length (dbfile db) < 2 ^ 63" by (rule c4)
  show "stored (dbfile db) x" if "x \<in> R" for x using c5[THEN bspec, OF that] by simp
  show "4 + 8 * length (buckets db) \<le> unat (offset x)" if "x \<in> R" for x
    using c5[THEN bspec, OF that] by simp
  show "offset x < left x" if "x \<in> R" "left x \<noteq> 0" for x
    using c5[THEN bspec, OF that(1)] that(2) by simp
  show "offset x < right x" if "x \<in> R" "right x \<noteq> 0" for x
    using c5[THEN bspec, OF that(1)] that(2) by simp
  show "unat (offset x) + unat (rsize x) \<le> unat (offset y) \<or>
        unat (offset y) + unat (rsize y) \<le> unat (offset x)"
    if "x \<in> R" "y \<in> R" "x \<noteq> y" for x y
    using c6[THEN bspec, OF that(1), THEN bspec, OF that(2)] that(3) by simp
  show "rep (dbfile db) (buckets db ! i) (T i)" if "i < length (buckets db)" for i
    using c7[THEN spec, of i] that by simp
  show "bst (T i)" if "i < length (buckets db)" for i
    using c7[THEN spec, of i] that by simp
  show "nodes (T i) \<subseteq> R" if "i < length (buckets db)" for i
    using c7[THEN spec, of i] that by simp
  show "unat (bucket db (key x)) = i" if "i < length (buckets db)" "x \<in> nodes (T i)" for i x
    using c7[THEN spec, of i] that by simp
qed

lemma invI:
  assumes "unat (nbuckets db) < 60" "length (buckets db) = 2 ^ unat (nbuckets db)"
    "4 + 8 * length (buckets db) \<le> length (dbfile db)" "length (dbfile db) < 2 ^ 63"
    "\<And>x. x \<in> R \<Longrightarrow> stored (dbfile db) x"
    "\<And>x. x \<in> R \<Longrightarrow> 4 + 8 * length (buckets db) \<le> unat (offset x)"
    "\<And>x. x \<in> R \<Longrightarrow> left x \<noteq> 0 \<Longrightarrow> offset x < left x"
    "\<And>x. x \<in> R \<Longrightarrow> right x \<noteq> 0 \<Longrightarrow> offset x < right x"
    "\<And>x y. x \<in> R \<Longrightarrow> y \<in> R \<Longrightarrow> x \<noteq> y \<Longrightarrow>
        unat (offset x) + unat (rsize x) \<le> unat (offset y) \<or>
        unat (offset y) + unat (rsize y) \<le> unat (offset x)"
    "\<And>i. i < length (buckets db) \<Longrightarrow> rep (dbfile db) (buckets db ! i) (T i)"
    "\<And>i. i < length (buckets db) \<Longrightarrow> bst (T i)"
    "\<And>i. i < length (buckets db) \<Longrightarrow> nodes (T i) \<subseteq> R"
    "\<And>i x. i < length (buckets db) \<Longrightarrow> x \<in> nodes (T i) \<Longrightarrow> unat (bucket db (key x)) = i"
  shows "inv db R T"
  unfolding inv_def
  by (intro conjI ballI allI impI assms) assumption+

lemma inv_bucket_less:
  assumes "inv db R T" shows "unat (bucket db k) < length (buckets db)"
  using bucket_less[of db k] invD(1,2)[OF assms] by simp

lemma inv_readRecord:
  assumes "inv db R T" "x \<in> R" shows "readRecord (dbfile db) (offset x) = Inr x"
  using stored_readRecord[OF invD(5)[OF assms] invD(4)[OF assms(1)]] .

lemma stored_append:
  assumes "stored f x" shows "stored (f @ b) x"
proof (rule stored_agree[OF assms])
  show "length f \<le> length (f @ b)" by simp
next
  fix j assume "unat (offset x) \<le> j" "j < unat (offset x) + unat (rsize x)"
  moreover from assms have "unat (offset x) + unat (rsize x) \<le> length f" by (simp add: stored_def)
  ultimately show "(f @ b) ! j = f ! j" by (simp add: nth_append)
qed

lemma stored_new:
  assumes "wfrec n" "unat (offset n) = length f"
  shows "stored (f @ recordBytes n) n"
  using assms by (simp add: stored_def)

lemma inv_append:
  assumes I: "inv db R T" and n: "wfrec n" "unat (offset n) = length (dbfile db)"
    "left n = 0" "right n = 0" and lim: "length (dbfile db) + unat (rsize n) < 2 ^ 63"
  shows "inv (db\<lparr>dbfile := dbfile db @ recordBytes n\<rparr>) (insert n R) T"
proof (rule invI)
  let ?db = "db\<lparr>dbfile := dbfile db @ recordBytes n\<rparr>"
  note D = invD[OF I]
  have bk: "\<And>k. bucket ?db k = bucket db k" by (rule bucket_cong) simp
  show "unat (nbuckets ?db) < 60" using D(1) by simp
  show "length (buckets ?db) = 2 ^ unat (nbuckets ?db)" using D(2) by simp
  show "4 + 8 * length (buckets ?db) \<le> length (dbfile ?db)" using D(3) by simp
  show l63: "length (dbfile ?db) < 2 ^ 63" using lim by simp
  show st: "stored (dbfile ?db) x" if "x \<in> insert n R" for x
    using that D(5) stored_append stored_new[OF n(1,2)] by auto
  show "4 + 8 * length (buckets ?db) \<le> unat (offset x)" if "x \<in> insert n R" for x
    using that D(6) D(3) n(2) by auto
  show "offset x < left x" if "x \<in> insert n R" "left x \<noteq> 0" for x
    using that D(7) n(3) by auto
  show "offset x < right x" if "x \<in> insert n R" "right x \<noteq> 0" for x
    using that D(8) n(4) by auto
  show "unat (offset x) + unat (rsize x) \<le> unat (offset y) \<or>
        unat (offset y) + unat (rsize y) \<le> unat (offset x)"
    if "x \<in> insert n R" "y \<in> insert n R" "x \<noteq> y" for x y
  proof -
    have e: "unat (offset z) + unat (rsize z) \<le> unat (offset n)" if "z \<in> R" for z
      using D(5)[OF that] n(2) by (simp add: stored_def)
    from that consider "x \<in> R" "y \<in> R" | "x = n" "y \<in> R" | "x \<in> R" "y = n" by auto
    then show ?thesis
    proof cases
      case 1 then show ?thesis using D(9) that(3) by blast
    next
      case 2 then show ?thesis using e by blast
    next
      case 3 then show ?thesis using e by blast
    qed
  qed
  show "rep (dbfile ?db) (buckets ?db ! i) (T i)" if "i < length (buckets ?db)" for i
  proof -
    from that have i: "i < length (buckets db)" by simp
    have "rep (dbfile db) (buckets db ! i) (T i)" using D(10)[OF i] .
    then have "rep (dbfile ?db) (buckets db ! i) (T i)"
    proof (rule rep_cong)
      fix x assume "x \<in> nodes (T i)"
      then have "x \<in> insert n R" using D(12)[OF i] by auto
      from stored_readRecord[OF st[OF this] l63]
      show "readRecord (dbfile ?db) (offset x) = Inr x" .
    qed
    then show ?thesis by simp
  qed
  show "bst (T i)" if "i < length (buckets ?db)" for i using that D(11) by simp
  show "nodes (T i) \<subseteq> insert n R" if "i < length (buckets ?db)" for i
    using that D(12)[of i] by auto
  show "unat (bucket ?db (key x)) = i" if "i < length (buckets ?db)" "x \<in> nodes (T i)" for i x
    using that D(13)[of i x] bk by simp
qed

lemma inv_setRoot:
  assumes I: "inv db R T" and n: "n \<in> R" "left n = 0" "right n = 0"
    and i: "i = unat (bucket db (key n))"
  shows "inv (writeBuckets (db\<lparr>buckets := (buckets db)[i := offset n]\<rparr>)) R
             (T(i := Node Leaf n Leaf))"
proof (rule invI)
  let ?db1 = "db\<lparr>buckets := (buckets db)[i := offset n]\<rparr>"
  let ?db = "writeBuckets ?db1"
  note D = invD[OF I]
  have il: "i < length (buckets db)" unfolding i by (rule inv_bucket_less[OF I])
  have bk: "\<And>k. bucket ?db k = bucket db k" by (rule bucket_cong) simp
  have pre: "4 + 8 * length (buckets ?db1) \<le> length (dbfile ?db1)" "length (dbfile ?db1) < 2 ^ 63"
    using D(3,4) by simp_all
  have len: "length (dbfile ?db) = length (dbfile db)"
    using writeBuckets_frame(1)[OF pre] by simp
  have nth: "\<And>j. 4 + 8 * length (buckets db) \<le> j \<Longrightarrow> j < length (dbfile db) \<Longrightarrow>
        dbfile ?db ! j = dbfile db ! j"
    using writeBuckets_frame(2)[OF pre] by simp
  show "unat (nbuckets ?db) < 60" using D(1) by simp
  show "length (buckets ?db) = 2 ^ unat (nbuckets ?db)" using D(2) by simp
  show "4 + 8 * length (buckets ?db) \<le> length (dbfile ?db)" using D(3) len by simp
  show l63: "length (dbfile ?db) < 2 ^ 63" using D(4) len by simp
  show st: "stored (dbfile ?db) x" if "x \<in> R" for x
  proof (rule stored_agree[OF D(5)[OF that]])
    show "length (dbfile db) \<le> length (dbfile ?db)" using len by simp
  next
    fix j assume "unat (offset x) \<le> j" "j < unat (offset x) + unat (rsize x)"
    moreover have "unat (offset x) + unat (rsize x) \<le> length (dbfile db)"
      using D(5)[OF that] by (simp add: stored_def)
    ultimately show "dbfile ?db ! j = dbfile db ! j" using D(6)[OF that] by (intro nth) simp_all
  qed
  show "4 + 8 * length (buckets ?db) \<le> unat (offset x)" if "x \<in> R" for x
    using D(6)[OF that] by simp
  show "offset x < left x" if "x \<in> R" "left x \<noteq> 0" for x using that D(7) by simp
  show "offset x < right x" if "x \<in> R" "right x \<noteq> 0" for x using that D(8) by simp
  show "unat (offset x) + unat (rsize x) \<le> unat (offset y) \<or>
        unat (offset y) + unat (rsize y) \<le> unat (offset x)"
    if "x \<in> R" "y \<in> R" "x \<noteq> y" for x y using that D(9) by simp
  have rd: "readRecord (dbfile ?db) (offset x) = Inr x" if "x \<in> R" for x
    using stored_readRecord[OF st[OF that] l63] .
  show "rep (dbfile ?db) (buckets ?db ! j) ((T(i := Node Leaf n Leaf)) j)"
    if "j < length (buckets ?db)" for j
  proof (cases "j = i")
    case True
    have "offset n \<noteq> 0"
    proof
      assume "offset n = 0"
      then have "unat (offset n) = 0" by simp
      with D(6)[OF n(1)] show False by simp
    qed
    then have "rep (dbfile ?db) (offset n) (Node Leaf n Leaf)" using rd[OF n(1)] n(2,3) by simp
    then show ?thesis using True il by simp
  next
    case False
    from that have j: "j < length (buckets db)" by simp
    have "rep (dbfile ?db) (buckets db ! j) (T j)"
      using D(10)[OF j] by (rule rep_cong) (use D(12)[OF j] rd in blast)
    then show ?thesis using False by simp
  qed
  show "bst ((T(i := Node Leaf n Leaf)) j)" if "j < length (buckets ?db)" for j
    using that D(11)[of j] by simp
  show "nodes ((T(i := Node Leaf n Leaf)) j) \<subseteq> R" if "j < length (buckets ?db)" for j
    using that D(12)[of j] n(1) by simp
  show "unat (bucket ?db (key x)) = j"
    if "j < length (buckets ?db)" "x \<in> nodes ((T(i := Node Leaf n Leaf)) j)" for j x
    using that D(13)[of j x] bk i by (cases "j = i") simp_all
qed

lemma inv_link:
  assumes I: "inv db R T" and n: "n \<in> R" "left n = 0" "right n = 0"
    and i: "i = unat (bucket db (key n))"
    and st: "stop (T i) (key n) = Some (cmp, r)" and c: "cmp \<noteq> 0"
    and r': "r' = (if cmp < 0 then r\<lparr>left := offset n\<rparr> else r\<lparr>right := offset n\<rparr>)"
    and lt: "offset r < offset n"
  shows "inv (writeLink db r') (insert r' (R - {r})) (T(i := ins n (T i)))"
proof -
  note D = invD[OF I]
  let ?f = "dbfile db"
  have il: "i < length (buckets db)" unfolding i by (rule inv_bucket_less[OF I])
  from stop_props[OF st] have rt: "r \<in> nodes (T i)" by simp
  then have rR: "r \<in> R" using D(12)[OF il] by blast
  have nr: "n \<noteq> r" using lt by auto
  have f': "offset r' = offset r" "rsize r' = rsize r" "key r' = key r" "val r' = val r"
    unfolding r' by simp_all
  from writeLink_eq[OF D(5)[OF rR] D(4) refl f'] obtain f1 where
    w: "writeLink db r' = db\<lparr>dbfile := f1\<rparr>" and len: "length f1 = length ?f"
    and sr': "stored f1 r'"
    and nth: "\<And>j. j < length ?f \<Longrightarrow> j < unat (offset r) \<or> unat (offset r) + unat (rsize r) \<le> j
                \<Longrightarrow> f1 ! j = ?f ! j"
    by blast
  let ?db = "db\<lparr>dbfile := f1\<rparr>"
  let ?R = "insert r' (R - {r})"
  have bk: "\<And>k. bucket ?db k = bucket db k" by (rule bucket_cong) simp
  have l63: "length f1 < 2 ^ 63" using D(4) len by simp
  have so: "stored f1 x" if "x \<in> R" "x \<noteq> r" for x
  proof (rule stored_agree[OF D(5)[OF that(1)]])
    show "length ?f \<le> length f1" using len by simp
  next
    fix j assume j: "unat (offset x) \<le> j" "j < unat (offset x) + unat (rsize x)"
    have "unat (offset x) + unat (rsize x) \<le> length ?f"
      using D(5)[OF that(1)] by (simp add: stored_def)
    moreover have "unat (offset x) + unat (rsize x) \<le> unat (offset r) \<or>
        unat (offset r) + unat (rsize r) \<le> unat (offset x)"
      using D(9)[OF that(1) rR that(2)] .
    ultimately show "f1 ! j = ?f ! j" using j by (intro nth) auto
  qed
  have st': "stored f1 x" if "x \<in> ?R" for x using that so sr' by auto
  have rd: "readRecord f1 (offset x) = Inr x" if "x \<in> ?R" for x
    using stored_readRecord[OF st'[OF that] l63] .
  have nR: "n \<in> ?R" using n(1) nr by simp
  have n0: "offset n \<noteq> 0"
  proof
    assume "offset n = 0"
    then have "unat (offset n) = 0" by simp
    with D(6)[OF n(1)] show False by simp
  qed
  have r'': "r' = (if cmp = 0 then r else if cmp < 0 then r\<lparr>left := offset n\<rparr>
                   else r\<lparr>right := offset n\<rparr>)" using c r' by simp
  have step: "rep f1 (buckets db ! i) (ins n (T i)) \<and>
         nodes (ins n (T i)) \<subseteq> (if cmp = 0 then nodes (T i) else insert n (insert r' (nodes (T i) - {r})))"
  proof (rule ins_step[OF D(10)[OF il] D(11)[OF il] st n(2,3) n0 _ _ r''])
    show "readRecord f1 (offset n) = Inr n" using rd[OF nR] .
  next
    fix x assume "x \<in> nodes (T i)" "x \<noteq> r"
    then have "x \<in> ?R" using D(12)[OF il] by auto
    then show "readRecord f1 (offset x) = Inr x" by (rule rd)
  next
    show "readRecord f1 (offset r) = Inr r'" using rd[of r'] f'(1) by simp
  qed
  have sub: "nodes (ins n (T i)) \<subseteq> ?R"
    using step c D(12)[OF il] nR by auto
  have "inv ?db ?R (T(i := ins n (T i)))"
  proof (rule invI)
    show "unat (nbuckets ?db) < 60" using D(1) by simp
    show "length (buckets ?db) = 2 ^ unat (nbuckets ?db)" using D(2) by simp
    show "4 + 8 * length (buckets ?db) \<le> length (dbfile ?db)" using D(3) len by simp
    show "length (dbfile ?db) < 2 ^ 63" using l63 by simp
    show "stored (dbfile ?db) x" if "x \<in> ?R" for x using st'[OF that] by simp
    show "4 + 8 * length (buckets ?db) \<le> unat (offset x)" if "x \<in> ?R" for x
      using that D(6) rR f'(1) by auto
    show "offset x < left x" if "x \<in> ?R" "left x \<noteq> 0" for x
    proof (cases "x = r'")
      case True
      then show ?thesis using that(2) D(7)[OF rR] lt unfolding r' by (auto split: if_splits)
    next
      case False then show ?thesis using that D(7) by auto
    qed
    show "offset x < right x" if "x \<in> ?R" "right x \<noteq> 0" for x
    proof (cases "x = r'")
      case True
      then show ?thesis using that(2) D(8)[OF rR] lt unfolding r' by (auto split: if_splits)
    next
      case False then show ?thesis using that D(8) by auto
    qed
    show "unat (offset x) + unat (rsize x) \<le> unat (offset y) \<or>
          unat (offset y) + unat (rsize y) \<le> unat (offset x)"
      if "x \<in> ?R" "y \<in> ?R" "x \<noteq> y" for x y
    proof -
      from that consider "x = r'" "y \<in> R" "y \<noteq> r" | "y = r'" "x \<in> R" "x \<noteq> r"
        | "x \<in> R" "y \<in> R" by auto
      then show ?thesis
      proof cases
        case 1 then show ?thesis using D(9)[OF rR 1(2)] f' by auto
      next
        case 2 then show ?thesis using D(9)[OF rR 2(2)] f' by auto
      next
        case 3 then show ?thesis using D(9) that(3) by blast
      qed
    qed
    show "rep (dbfile ?db) (buckets ?db ! j) ((T(i := ins n (T i))) j)"
      if "j < length (buckets ?db)" for j
    proof (cases "j = i")
      case True then show ?thesis using step by simp
    next
      case False
      from that have j: "j < length (buckets db)" by simp
      have "rep f1 (buckets db ! j) (T j)"
        using D(10)[OF j]
      proof (rule rep_cong)
        fix x assume x: "x \<in> nodes (T j)"
        then have "x \<noteq> r" using D(13)[OF j x] D(13)[OF il rt] False by auto
        then have "x \<in> ?R" using x D(12)[OF j] by auto
        then show "readRecord f1 (offset x) = Inr x" by (rule rd)
      qed
      then show ?thesis using False by simp
    qed
    show "bst ((T(i := ins n (T i))) j)" if "j < length (buckets ?db)" for j
      using that D(11)[of j] bst_ins[OF D(11)[OF il], of n] by simp
    show "nodes ((T(i := ins n (T i))) j) \<subseteq> ?R" if "j < length (buckets ?db)" for j
    proof (cases "j = i")
      case True then show ?thesis using sub by simp
    next
      case False
      from that have j: "j < length (buckets db)" by simp
      have "x \<noteq> r" if "x \<in> nodes (T j)" for x
        using D(13)[OF j that] D(13)[OF il rt] False by auto
      then show ?thesis using False D(12)[OF j] by auto
    qed
    show "unat (bucket ?db (key x)) = j"
      if "j < length (buckets ?db)" "x \<in> nodes ((T(i := ins n (T i))) j)" for j x
    proof (cases "j = i")
      case True
      with that have "key x \<in> key ` nodes (ins n (T i))" by simp
      then have "key x = key n \<or> key x \<in> key ` nodes (T i)" unfolding keys_ins by simp
      then show ?thesis using D(13)[OF il] i True bk by auto
    next
      case False then show ?thesis using that D(13)[of j x] bk by simp
    qed
  qed
  then show ?thesis unfolding w .
qed

section \<open>\<^verbatim>\<open>Set\<close> and \<^verbatim>\<open>Get\<close> under the invariant\<close>

lemma ins_found:
  assumes "stop t (key n) = Some (0, r)"
  shows "ins n t = t"
  using assms
proof (induction t)
  case Leaf then show ?case by simp
next
  case (Node l r0 rt)
  let ?c = "Compare (key n) (key r0)"
  show ?case
  proof (cases "?c < 0 \<and> l \<noteq> Leaf")
    case True
    with Node.prems have "stop l (key n) = Some (0, r)" unfolding stop_Node by (simp del: stop.simps)
    from Node.IH(1)[OF this] True show ?thesis unfolding ins_Node by (simp del: ins.simps)
  next
    case False
    show ?thesis
    proof (cases "?c > 0 \<and> rt \<noteq> Leaf")
      case True
      then have nlt: "\<not> ?c < 0" by simp
      with True Node.prems have "stop rt (key n) = Some (0, r)"
        unfolding stop_Node by (simp del: stop.simps)
      from Node.IH(2)[OF this] True nlt show ?thesis unfolding ins_Node by (simp del: ins.simps)
    next
      case F2: False
      with False Node.prems have "Some (?c, r0) = Some (0, r)"
        unfolding stop_Node by (simp only: if_False)
      then have "?c = 0" by blast
      then show ?thesis unfolding ins_Node by (simp del: ins.simps Compare_eq_0)
    qed
  qed
qed

lemma newRecord_wfrec:
  assumes "fits (k, v)" shows "wfrec (newRecord off k v)"
  using newRecord_fit[of k v off] assms by (simp add: fits_def wfrec_def del: newRecord_simps(6))

lemma newRecord_rsize_nz:
  assumes "fits (k, v)" shows "rsize (newRecord off k v) \<noteq> 0"
proof
  assume "rsize (newRecord off k v) = 0"
  then have "unat (rsize (newRecord off k v)) = 0" by simp
  with newRecord_fit[of k v off] assms show False by (simp add: fits_def del: newRecord_simps(6))
qed

lemma inv_root_zero:
  assumes "inv db R T" "i < length (buckets db)"
  shows "buckets db ! i = 0 \<longleftrightarrow> T i = Leaf"
  using rep_Leaf_iff[OF invD(10)[OF assms]] by simp

lemma Set_step:
  assumes I: "inv db R T" and fit: "fits (k, v)"
    and i: "i = unat (bucket db k)" and off: "off = of_nat (length (dbfile db))"
    and n: "n = newRecord off k v" and db2: "db2 = db\<lparr>dbfile := dbfile db @ recordBytes n\<rparr>"
  shows "if 2 ^ 63 \<le> length (dbfile db) + unat (rsize n)
         then \<exists>db'. Set db k v = Some (Some IOError, db')
         else (case stop (T i) k of
                 None \<Rightarrow> Set db k v =
                   Some (None, writeBuckets (db2\<lparr>buckets := (buckets db)[i := off]\<rparr>))
               | Some (cmp, r) \<Rightarrow> Set db k v =
                   Some (None, if cmp = 0 then db2
                               else writeLink db2 (if cmp < 0 then r\<lparr>left := off\<rparr>
                                                   else r\<lparr>right := off\<rparr>)))"
proof -
  note D = invD[OF I]
  let ?f = "dbfile db"
  have il: "i < length (buckets db)" unfolding i by (rule inv_bucket_less[OF I])
  have nz: "rsize n \<noteq> 0" unfolding n by (rule newRecord_rsize_nz[OF fit])
  have ap: "appendRecord d off k v =
     (if 2 ^ 63 \<le> length ?f + unat (rsize n) then (Some IOError, d)
      else (None, d\<lparr>dbfile := dbfile d @ recordBytes n\<rparr>))"
    if "length (dbfile d) = length ?f" for d
    using appendRecord_eq[of d k v] that D(4) nz unfolding off n by simp
  show ?thesis
  proof (cases "buckets db ! i = 0")
    case True
    then have tl: "T i = Leaf" using inv_root_zero[OF I il] by simp
    let ?db1 = "db\<lparr>buckets := (buckets db)[i := off]\<rparr>"
    have pre: "4 + 8 * length (buckets ?db1) \<le> length (dbfile ?db1)" "length (dbfile ?db1) < 2 ^ 63"
      using D(3,4) by simp_all
    have len: "length (dbfile (writeBuckets ?db1)) = length ?f"
      using writeBuckets_frame(1)[OF pre] by simp
    have S: "Set db k v = Some (appendRecord (writeBuckets ?db1) off k v)"
      using True il D(4) by (simp add: Set_def Let_def i[symmetric] off[symmetric])
    have C: "(writeBuckets ?db1)\<lparr>dbfile := dbfile (writeBuckets ?db1) @ recordBytes n\<rparr> =
             writeBuckets (db2\<lparr>buckets := (buckets db)[i := off]\<rparr>)"
    proof -
      have sw: "db2\<lparr>buckets := (buckets db)[i := off]\<rparr> =
                ?db1\<lparr>dbfile := dbfile ?db1 @ recordBytes n\<rparr>" unfolding db2 by simp
      show ?thesis unfolding sw by (rule writeBuckets_append[OF pre, symmetric])
    qed
    show ?thesis unfolding S ap[OF len] tl using C by simp
  next
    case False
    then have tn: "T i \<noteq> Leaf" using inv_root_zero[OF I il] by simp
    from stop_Some[OF tn] obtain cmp r where st: "stop (T i) k = Some (cmp, r)" by fastforce
    have bs: "binSearch ?f k (buckets db ! i) = Some (Inr (cmp, r))"
      using binSearch_stop[OF D(10)[OF il] tn, of k] st by simp
    from stop_props[OF st] have "r \<in> nodes (T i)" by simp
    then have rR: "r \<in> R" using D(12)[OF il] by blast
    let ?r' = "if cmp < 0 then r\<lparr>left := off\<rparr> else r\<lparr>right := off\<rparr>"
    let ?db1 = "if cmp = 0 then db else writeLink db ?r'"
    have f': "offset ?r' = offset r" "rsize ?r' = rsize r" "key ?r' = key r" "val ?r' = val r"
      by simp_all
    have S: "Set db k v = Some (appendRecord ?db1 off k v)"
      using False il D(4) bs
      by (simp add: Set_def Let_def i[symmetric] off[symmetric])
    have len: "length (dbfile ?db1) = length ?f"
      using writeLink_eq[OF D(5)[OF rR] D(4) refl f'] by auto
    have C: "?db1\<lparr>dbfile := dbfile ?db1 @ recordBytes n\<rparr> =
             (if cmp = 0 then db2 else writeLink db2 ?r')"
      using writeLink_append[OF D(5)[OF rR] D(4) refl f', of "recordBytes n"] by (simp add: db2)
    show ?thesis unfolding S ap[OF len] st using C by simp
  qed
qed

lemma Set_inv:
  assumes I: "inv db R T" and fit: "fits (k, v)" and S: "Set db k v = Some (None, db')"
    and i: "i = unat (bucket db k)" and n: "n = newRecord (of_nat (length (dbfile db))) k v"
  shows "\<exists>R'. inv db' R' (T(i := ins n (T i))) \<and> n \<in> R' \<and>
           (\<forall>x\<in>R. \<exists>x'\<in>R'. offset x' = offset x \<and> key x' = key x \<and> val x' = val x \<and>
                               rsize x' = rsize x) \<and>
           (\<forall>j. j \<noteq> i \<longrightarrow> buckets db' ! j = buckets db ! j) \<and>
           (buckets db ! i \<noteq> 0 \<longrightarrow> buckets db' ! i = buckets db ! i) \<and>
           (buckets db ! i = 0 \<longrightarrow> buckets db' ! i = of_nat (length (dbfile db))) \<and>
           length (dbfile db') = length (dbfile db) + unat (rsize n)"
proof -
  note D = invD[OF I]
  define off :: u64 where "off = of_nat (length (dbfile db))"
  define db2 where "db2 = db\<lparr>dbfile := dbfile db @ recordBytes n\<rparr>"
  have n': "n = newRecord off k v" unfolding n off_def ..
  note step = Set_step[OF I fit i off_def n' db2_def]
  have il: "i < length (buckets db)" unfolding i by (rule inv_bucket_less[OF I])
  have lim: "length (dbfile db) + unat (rsize n) < 2 ^ 63"
  proof (rule ccontr)
    assume "\<not> ?thesis"
    then have "2 ^ 63 \<le> length (dbfile db) + unat (rsize n)" by simp
    with step S show False by auto
  qed
  have uo: "unat off = length (dbfile db)" unfolding off_def using unat_of_nat_len(1)[OF D(4)] .
  have nf: "wfrec n" "unat (offset n) = length (dbfile db)" "left n = 0" "right n = 0" "key n = k"
    "offset n = off"
    using newRecord_wfrec[OF fit] uo unfolding n' by simp_all
  have I2: "inv db2 (insert n R) T" unfolding db2_def by (rule inv_append[OF I nf(1-4) lim])
  have bk2: "unat (bucket db2 (key n)) = i" unfolding i nf(5) db2_def
    by (simp add: bucket_cong[of "db\<lparr>dbfile := dbfile db @ recordBytes n\<rparr>" db])
  have pay: "\<forall>x\<in>R. \<exists>x'\<in>insert n R. offset x' = offset x \<and> key x' = key x \<and> val x' = val x \<and>
                               rsize x' = rsize x" by blast
  show ?thesis
  proof (cases "stop (T i) k")
    case None
    then have tl: "T i = Leaf" using stop_Some[of "T i" k] by auto
    then have z: "buckets db ! i = 0" using inv_root_zero[OF I il] by simp
    from step lim None S have e: "db' = writeBuckets (db2\<lparr>buckets := (buckets db)[i := off]\<rparr>)"
      by simp
    have "inv (writeBuckets (db2\<lparr>buckets := (buckets db2)[i := offset n]\<rparr>)) (insert n R)
              (T(i := Node Leaf n Leaf))"
      by (rule inv_setRoot[OF I2 _ nf(3,4) bk2[symmetric]]) simp
    then have "inv db' (insert n R) (T(i := ins n (T i)))"
      unfolding e tl nf(6) by (simp add: db2_def)
    moreover have "length (dbfile db') = length (dbfile db) + unat (rsize n)"
    proof -
      have "4 + 8 * length (buckets (db2\<lparr>buckets := (buckets db)[i := off]\<rparr>))
              \<le> length (dbfile (db2\<lparr>buckets := (buckets db)[i := off]\<rparr>))"
        using D(3) by (simp add: db2_def)
      moreover have "length (dbfile (db2\<lparr>buckets := (buckets db)[i := off]\<rparr>)) < 2 ^ 63"
        using lim by (simp add: db2_def)
      ultimately show ?thesis unfolding e using writeBuckets_frame(1) by (simp add: db2_def)
    qed
    moreover have "buckets db' = (buckets db)[i := off]" unfolding e by simp
    ultimately show ?thesis using pay z il off_def by (intro exI[of _ "insert n R"]) simp
  next
    case (Some cr)
    obtain cmp r where cr: "cr = (cmp, r)" by (cases cr)
    have st: "stop (T i) k = Some (cmp, r)" using Some cr by simp
    then have tn: "T i \<noteq> Leaf" by auto
    then have nz: "buckets db ! i \<noteq> 0" using inv_root_zero[OF I il] by simp
    let ?r' = "if cmp < 0 then r\<lparr>left := off\<rparr> else r\<lparr>right := off\<rparr>"
    from step lim st S have e: "db' = (if cmp = 0 then db2 else writeLink db2 ?r')" by simp
    from stop_props[OF st] have rt: "r \<in> nodes (T i)" by simp
    then have rR: "r \<in> R" using D(12)[OF il] by blast
    have f': "offset ?r' = offset r" "rsize ?r' = rsize r" "key ?r' = key r" "val ?r' = val r"
      by simp_all
    show ?thesis
    proof (cases "cmp = 0")
      case True
      have "ins n (T i) = T i" using st True nf(5) by (intro ins_found[of _ _ r]) simp
      then have "T(i := ins n (T i)) = T" by simp
      then have "inv db' (insert n R) (T(i := ins n (T i)))" using I2 e True by simp
      moreover have "buckets db' = buckets db" "length (dbfile db') = length (dbfile db) + unat (rsize n)"
        using e True by (simp_all add: db2_def)
      ultimately show ?thesis using pay nz by (intro exI[of _ "insert n R"]) simp
    next
      case False
      have lt: "offset r < offset n"
      proof -
        have "unat (offset r) + unat (rsize r) \<le> length (dbfile db)" "wfrec r"
          using D(5)[OF rR] by (simp_all add: stored_def)
        then have "unat (offset r) < unat (offset n)" using nf(2) by (simp add: wfrec_def)
        then show ?thesis by (simp add: word_less_nat_alt)
      qed
      have r'e: "?r' = (if cmp < 0 then r\<lparr>left := offset n\<rparr> else r\<lparr>right := offset n\<rparr>)"
        using nf(6) by simp
      have st2: "stop (T i) (key n) = Some (cmp, r)" using st nf(5) by simp
      have L: "inv (writeLink db2 ?r') (insert ?r' (insert n R - {r})) (T(i := ins n (T i)))"
        by (rule inv_link[OF I2 _ nf(3,4) bk2[symmetric] st2 False r'e lt]) simp
      let ?R = "insert ?r' (insert n R - {r})"
      have "inv db' ?R (T(i := ins n (T i)))" using L e False by simp
      moreover have "n \<in> ?R" using lt by auto
      moreover have "\<forall>x\<in>R. \<exists>x'\<in>?R. offset x' = offset x \<and> key x' = key x \<and> val x' = val x \<and>
                               rsize x' = rsize x"
      proof
        fix x assume x: "x \<in> R"
        show "\<exists>x'\<in>?R. offset x' = offset x \<and> key x' = key x \<and> val x' = val x \<and> rsize x' = rsize x"
        proof (cases "x = r")
          case True then show ?thesis using f' by (intro bexI[of _ ?r']) simp_all
        next
          case False then show ?thesis using x by (intro bexI[of _ x]) simp_all
        qed
      qed
      moreover have "buckets db' = buckets db" using e False by (simp add: db2_def)
      moreover have "length (dbfile db') = length (dbfile db) + unat (rsize n)"
      proof -
        have "stored (dbfile db2) r" using invD(5)[OF I2, of r] rR by simp
        from writeLink_eq[OF this invD(4)[OF I2] refl f']
        have "length (dbfile (writeLink db2 ?r')) = length (dbfile db2)" by auto
        then show ?thesis using e False by (simp add: db2_def)
      qed
      ultimately show ?thesis using nz by (intro exI[of _ ?R]) simp
    qed
  qed
qed

lemma Set_total:
  assumes I: "inv db R T" and fit: "fits (k, v)"
  shows "\<exists>e db'. Set db k v = Some (e, db') \<and> (e = None \<or> e = Some IOError)"
  using Set_step[OF I fit refl refl refl refl]
  by (auto split: if_splits option.splits prod.splits)

lemma Get_lookup:
  assumes I: "inv db R T"
  shows "Get db k = Some (lookup (T (unat (bucket db k))) k, None)"
proof -
  note D = invD[OF I]
  let ?i = "unat (bucket db k)"
  have il: "?i < length (buckets db)" by (rule inv_bucket_less[OF I])
  show ?thesis
  proof (cases "buckets db ! ?i = 0")
    case True
    then have "T ?i = Leaf" using inv_root_zero[OF I il] by simp
    then show ?thesis using True il by (simp add: Get_def Let_def)
  next
    case False
    then have tn: "T ?i \<noteq> Leaf" using inv_root_zero[OF I il] by simp
    from stop_Some[OF tn] obtain cmp r where st: "stop (T ?i) k = Some (cmp, r)" by fastforce
    have bs: "binSearch (dbfile db) k (buckets db ! ?i) = Some (Inr (cmp, r))"
      using binSearch_stop[OF D(10)[OF il] tn, of k] st by simp
    show ?thesis using False il bs stop_lookup[OF st] by (simp add: Get_def Let_def)
  qed
qed

section \<open>Sequences of \<^verbatim>\<open>Set\<close>\<close>

lemma Sets_Cons_Inr:
  assumes "Sets db ((k, v) # kvs) = Some (Inr db')"
  obtains db1 where "Set db k v = Some (None, db1)" "Sets db1 kvs = Some (Inr db')"
  using assms by (auto split: option.splits prod.splits)

lemma Sets_inv:
  assumes "inv db R T" "Sets db kvs = Some (Inr db')" "\<forall>kv\<in>set kvs. fits kv"
  shows "\<exists>R' T'. inv db' R' T' \<and>
    (\<forall>k. lookup (T' (unat (bucket db k))) k =
          (case lookup (T (unat (bucket db k))) k of Some v \<Rightarrow> Some v | None \<Rightarrow> map_of kvs k)) \<and>
    (\<forall>x\<in>R. \<exists>x'\<in>R'. offset x' = offset x \<and> key x' = key x \<and> val x' = val x \<and>
                        rsize x' = rsize x) \<and>
    (\<forall>j<length kvs. \<exists>x\<in>R'. offset x = written db kvs ! j \<and> key x = fst (kvs ! j) \<and>
                        val x = snd (kvs ! j)) \<and>
    nbuckets db' = nbuckets db \<and> length (buckets db') = length (buckets db) \<and>
    length (dbfile db) \<le> length (dbfile db')"
  using assms
proof (induction kvs arbitrary: db R T)
  case Nil
  then show ?case by (intro exI[of _ R] exI[of _ T]) (auto split: option.splits)
next
  case (Cons kv kvs)
  obtain k v where kv: "kv = (k, v)" by (cases kv)
  from Cons.prems(2) obtain db1 where S: "Set db k v = Some (None, db1)"
    and R1: "Sets db1 kvs = Some (Inr db')" unfolding kv by (rule Sets_Cons_Inr)
  from Cons.prems(3) have fit: "fits (k, v)" and fits: "\<forall>kv\<in>set kvs. fits kv" by (simp_all add: kv)
  define i where "i = unat (bucket db k)"
  define n where "n = newRecord (of_nat (length (dbfile db))) k v"
  from Set_inv[OF Cons.prems(1) fit S i_def n_def] obtain R1 where
    I1: "inv db1 R1 (T(i := ins n (T i)))" and nR: "n \<in> R1"
    and pay1: "\<forall>x\<in>R. \<exists>x'\<in>R1. offset x' = offset x \<and> key x' = key x \<and> val x' = val x \<and>
                               rsize x' = rsize x"
    and len1: "length (dbfile db1) = length (dbfile db) + unat (rsize n)"
    by blast
  from Set_buckets[OF S] have nb: "nbuckets db1 = nbuckets db"
    and lb: "length (buckets db1) = length (buckets db)" by simp_all
  have bk: "\<And>k. bucket db1 k = bucket db k" using nb by (rule bucket_cong)
  from Cons.IH[OF I1 R1 fits] obtain R' T' where
    I': "inv db' R' T'"
    and lk: "\<forall>k'. lookup (T' (unat (bucket db1 k'))) k' =
          (case lookup ((T(i := ins n (T i))) (unat (bucket db1 k'))) k' of Some v \<Rightarrow> Some v
           | None \<Rightarrow> map_of kvs k')"
    and pay: "\<forall>x\<in>R1. \<exists>x'\<in>R'. offset x' = offset x \<and> key x' = key x \<and> val x' = val x \<and>
                               rsize x' = rsize x"
    and wr: "\<forall>j<length kvs. \<exists>x\<in>R'. offset x = written db1 kvs ! j \<and> key x = fst (kvs ! j) \<and>
                        val x = snd (kvs ! j)"
    and nb': "nbuckets db' = nbuckets db1" and lb': "length (buckets db') = length (buckets db1)"
    and len': "length (dbfile db1) \<le> length (dbfile db')"
    by blast
  have kn: "key n = k" "val n = v" "offset n = of_nat (length (dbfile db))" unfolding n_def by simp_all
  have A: "lookup (T' (unat (bucket db k'))) k' =
          (case lookup (T (unat (bucket db k'))) k' of Some v \<Rightarrow> Some v
           | None \<Rightarrow> map_of (kv # kvs) k')" for k'
  proof (cases "unat (bucket db k') = i")
    case True
    have "lookup (T' (unat (bucket db k'))) k' =
          (case lookup (ins n (T i)) k' of Some v \<Rightarrow> Some v | None \<Rightarrow> map_of kvs k')"
      using lk[THEN spec, of k'] True bk by simp
    then show ?thesis using True unfolding lookup_ins kn kv by (auto split: option.splits)
  next
    case False
    then have "k' \<noteq> k" unfolding i_def by auto
    moreover have "lookup (T' (unat (bucket db k'))) k' =
          (case lookup (T (unat (bucket db k'))) k' of Some v \<Rightarrow> Some v | None \<Rightarrow> map_of kvs k')"
      using lk[THEN spec, of k'] False bk by simp
    ultimately show ?thesis unfolding kv by (auto split: option.splits)
  qed
  have B: "\<exists>x'\<in>R'. offset x' = offset x \<and> key x' = key x \<and> val x' = val x \<and> rsize x' = rsize x"
    if "x \<in> R" for x
  proof -
    from pay1 that obtain x1 where "x1 \<in> R1" "offset x1 = offset x" "key x1 = key x"
      "val x1 = val x" "rsize x1 = rsize x" by blast
    moreover from pay this(1) obtain x' where "x' \<in> R'" "offset x' = offset x1" "key x' = key x1"
      "val x' = val x1" "rsize x' = rsize x1" by blast
    ultimately show ?thesis by (intro bexI[of _ x']) simp_all
  qed
  have C: "\<exists>x\<in>R'. offset x = written db (kv # kvs) ! j \<and> key x = fst ((kv # kvs) ! j) \<and>
                        val x = snd ((kv # kvs) ! j)" if "j < length (kv # kvs)" for j
  proof (cases j)
    case 0
    from pay nR obtain x' where "x' \<in> R'" "offset x' = offset n" "key x' = key n" "val x' = val n"
      by blast
    then show ?thesis using 0 kn unfolding kv by (intro bexI[of _ x']) simp_all
  next
    case (Suc j')
    with that have "j' < length kvs" by simp
    with wr obtain x where "x \<in> R'" "offset x = written db1 kvs ! j'" "key x = fst (kvs ! j')"
      "val x = snd (kvs ! j')" by blast
    then show ?thesis using Suc S unfolding kv by (intro bexI[of _ x]) simp_all
  qed
  show ?case
    using I' A B C nb nb' lb lb' len1 len'
    by (intro exI[of _ R'] exI[of _ T']) simp
qed

lemma Sets_total:
  assumes "inv db R T" "\<forall>kv\<in>set kvs. fits kv"
  shows "\<exists>res. Sets db kvs = Some res"
  using assms
proof (induction kvs arbitrary: db R T)
  case Nil then show ?case by simp
next
  case (Cons kv kvs)
  obtain k v where kv: "kv = (k, v)" by (cases kv)
  from Cons.prems(2) have fit: "fits (k, v)" and fits: "\<forall>kv\<in>set kvs. fits kv" by (simp_all add: kv)
  from Set_total[OF Cons.prems(1) fit] obtain e db1 where
    S: "Set db k v = Some (e, db1)" and e: "e = None \<or> e = Some IOError" by blast
  from e show ?case
  proof
    assume "e = None"
    with S Set_inv[OF Cons.prems(1) fit _ refl refl, of db1] obtain R1 T1 where "inv db1 R1 T1"
      by blast
    from Cons.IH[OF this fits] S \<open>e = None\<close> show ?thesis unfolding kv by simp
  next
    assume "e = Some IOError"
    with S show ?thesis unfolding kv by simp
  qed
qed

section \<open>The states a database can reach\<close>

lemma Create_cases:
  assumes "Create nb = Inr db"
  shows "unat nb < 60 \<or> buckets db = []"
proof (cases "unat nb < 60")
  case True then show ?thesis by simp
next
  case False
  let ?n = "push_bit (unat nb) (1 :: u64)"
  show ?thesis
  proof (cases "unat nb < 64")
    case True
    have "?n = of_nat (2 ^ unat nb)" by (simp add: push_bit_eq_mult)
    moreover have "(2::nat) ^ unat nb < 2 ^ 64" using True by (intro power_strict_increasing) simp_all
    ultimately have u: "unat ?n = 2 ^ unat nb" by (simp only: unat_of_nat) simp
    have "(2::nat) ^ 60 \<le> 2 ^ unat nb" using False by (intro power_increasing) simp_all
    then have "2 ^ 60 \<le> unat ?n" unfolding u by simp
    then have "Create nb = Inl Panic" by (simp add: Create_def Let_def del: push_bit_of_1)
    with assms show ?thesis by simp
  next
    case F2: False
    have z: "?n = 0" using F2 by (intro bit_word_eqI) (auto simp: bit_simps)
    have "Create nb = Inr (writeBuckets \<lparr>nbuckets = nb, buckets = [], dbfile = []\<rparr>)"
      unfolding Create_def Let_def z by simp
    with assms show ?thesis by auto
  qed
qed

lemma newRecord_rsize_le:
  assumes "fits (k, v)" shows "unat (rsize (newRecord off k v)) \<le> 2 ^ 31"
proof -
  from assms have a: "28 + length k + length v \<le> 2 ^ 31" by (simp add: fits_def)
  from newRecord_size[OF a, of off] obtain n where
    n: "unat (rsize (newRecord off k v)) = 2 ^ n" "\<forall>j. 28 + length k + length v \<le> 2 ^ j \<longrightarrow> n \<le> j"
    by blast
  from n(2) a have "n \<le> 31" by blast
  then have "(2::nat) ^ n \<le> 2 ^ 31" by (intro power_increasing) simp_all
  then show ?thesis unfolding n(1) .
qed

lemma Sets_succeeds:
  assumes "inv db R T" "\<forall>kv\<in>set kvs. fits kv" "length (dbfile db) + length kvs * 2 ^ 31 < 2 ^ 63"
  shows "\<exists>db'. Sets db kvs = Some (Inr db')"
  using assms
proof (induction kvs arbitrary: db R T)
  case Nil then show ?case by simp
next
  case (Cons kv kvs)
  obtain k v where kv: "kv = (k, v)" by (cases kv)
  from Cons.prems(2) have fit: "fits (k, v)" and fits: "\<forall>kv\<in>set kvs. fits kv" by (simp_all add: kv)
  define n where "n = newRecord (of_nat (length (dbfile db))) k v"
  have sz: "unat (rsize n) \<le> 2 ^ 31" unfolding n_def by (rule newRecord_rsize_le[OF fit])
  have room: "\<not> 2 ^ 63 \<le> length (dbfile db) + unat (rsize n)" using Cons.prems(3) sz by simp
  from Set_step[OF Cons.prems(1) fit refl refl n_def refl] room
  obtain db1 where S: "Set db k v = Some (None, db1)"
    by (auto split: option.splits prod.splits)
  from Set_inv[OF Cons.prems(1) fit S refl n_def] obtain R1 T1 where
    I1: "inv db1 R1 T1" and len: "length (dbfile db1) = length (dbfile db) + unat (rsize n)"
    by blast
  have "length (dbfile db1) + length kvs * 2 ^ 31 < 2 ^ 63" using Cons.prems(3) sz len by simp
  from Cons.IH[OF I1 fits this] S show ?case unfolding kv by simp
qed

lemma reach_inv:
  assumes "Create nb = Inr db0" "unat nb < 60" "Sets db0 kvs = Some (Inr db)"
    "\<forall>kv\<in>set kvs. fits kv"
  shows "\<exists>R T. inv db R T \<and> (\<forall>k. lookup (T (unat (bucket db k))) k = map_of kvs k) \<and>
    (\<forall>j<length kvs. \<exists>x\<in>R. offset x = written db0 kvs ! j \<and> key x = fst (kvs ! j) \<and>
                        val x = snd (kvs ! j)) \<and>
    nbuckets db = nb \<and> length (buckets db) = 2 ^ unat nb"
proof -
  have I0: "inv db0 {} (\<lambda>_. Leaf)" by (rule Create_inv[OF assms(1,2)])
  from Sets_inv[OF I0 assms(3,4)] obtain R T where
    I: "inv db R T"
    and lk: "\<forall>k. lookup (T (unat (bucket db0 k))) k =
          (case lookup Leaf k of Some v \<Rightarrow> Some v | None \<Rightarrow> map_of kvs k)"
    and wr: "\<forall>j<length kvs. \<exists>x\<in>R. offset x = written db0 kvs ! j \<and> key x = fst (kvs ! j) \<and>
                        val x = snd (kvs ! j)"
    and nb: "nbuckets db = nbuckets db0" by blast
  have nb0: "nbuckets db0 = nb" using assms(1) Create_small[OF assms(2)] by auto
  have bk: "\<And>k. bucket db k = bucket db0 k" using nb by (rule bucket_cong)
  have "\<forall>k. lookup (T (unat (bucket db k))) k = map_of kvs k" using lk bk by simp
  moreover have "length (buckets db) = 2 ^ unat nb" using invD(2)[OF I] nb nb0 by simp
  ultimately show ?thesis using I wr nb nb0 by blast
qed

lemma Sets_nonempty_buckets:
  assumes "Sets db (kv # kvs) = Some (Inr db')"
  shows "buckets db \<noteq> []"
proof
  assume e: "buckets db = []"
  obtain k v where kv: "kv = (k, v)" by (cases kv)
  have "Set db k v = Some (Some IOError, db) \<or> Set db k v = Some (Some Panic, db)"
    using e by (simp add: Set_def Let_def)
  with assms show False unfolding kv by auto
qed

section \<open>Further consequences of the invariant\<close>

lemma Create_lt64:
  assumes "Create nb = Inr db" "unat nb < 64"
  shows "unat nb < 60"
proof (rule ccontr)
  assume F: "\<not> unat nb < 60"
  let ?n = "push_bit (unat nb) (1 :: u64)"
  have "?n = of_nat (2 ^ unat nb)" by (simp add: push_bit_eq_mult)
  moreover have "(2::nat) ^ unat nb < 2 ^ 64" using assms(2) by (intro power_strict_increasing) simp_all
  ultimately have u: "unat ?n = 2 ^ unat nb" by (simp only: unat_of_nat) simp
  have "(2::nat) ^ 60 \<le> 2 ^ unat nb" using F by (intro power_increasing) simp_all
  then have "2 ^ 60 \<le> unat ?n" unfolding u by simp
  then have "Create nb = Inl Panic" by (simp add: Create_def Let_def del: push_bit_of_1)
  with assms show False by simp
qed

lemma inv_extend:
  assumes I: "inv db R T" and lim: "length (dbfile db) + length b < 2 ^ 63"
  shows "inv (db\<lparr>dbfile := dbfile db @ b\<rparr>) R T"
proof (rule invI)
  let ?db = "db\<lparr>dbfile := dbfile db @ b\<rparr>"
  note D = invD[OF I]
  have bk: "\<And>k. bucket ?db k = bucket db k" by (rule bucket_cong) simp
  show "unat (nbuckets ?db) < 60" using D(1) by simp
  show "length (buckets ?db) = 2 ^ unat (nbuckets ?db)" using D(2) by simp
  show "4 + 8 * length (buckets ?db) \<le> length (dbfile ?db)" using D(3) by simp
  show l63: "length (dbfile ?db) < 2 ^ 63" using lim by simp
  show st: "stored (dbfile ?db) x" if "x \<in> R" for x
    using D(5)[OF that] stored_append by simp
  show "4 + 8 * length (buckets ?db) \<le> unat (offset x)" if "x \<in> R" for x
    using D(6)[OF that] by simp
  show "offset x < left x" if "x \<in> R" "left x \<noteq> 0" for x using that D(7) by simp
  show "offset x < right x" if "x \<in> R" "right x \<noteq> 0" for x using that D(8) by simp
  show "unat (offset x) + unat (rsize x) \<le> unat (offset y) \<or>
        unat (offset y) + unat (rsize y) \<le> unat (offset x)"
    if "x \<in> R" "y \<in> R" "x \<noteq> y" for x y using that D(9) by simp
  show "rep (dbfile ?db) (buckets ?db ! i) (T i)" if "i < length (buckets ?db)" for i
  proof -
    from that have i: "i < length (buckets db)" by simp
    have "rep (dbfile ?db) (buckets db ! i) (T i)"
      using D(10)[OF i]
    proof (rule rep_cong)
      fix x assume "x \<in> nodes (T i)"
      then have "x \<in> R" using D(12)[OF i] by auto
      from stored_readRecord[OF st[OF this] l63]
      show "readRecord (dbfile ?db) (offset x) = Inr x" .
    qed
    then show ?thesis by simp
  qed
  show "bst (T i)" if "i < length (buckets ?db)" for i using that D(11) by simp
  show "nodes (T i) \<subseteq> R" if "i < length (buckets ?db)" for i using that D(12)[of i] by simp
  show "unat (bucket ?db (key x)) = i" if "i < length (buckets ?db)" "x \<in> nodes (T i)" for i x
    using that D(13)[of i x] bk by simp
qed

lemma lookup_Some_stop:
  assumes "lookup t k = Some w"
  shows "\<exists>r. stop t k = Some (0, r)"
proof -
  from assms have "t \<noteq> Leaf" by auto
  from stop_Some[OF this] obtain cmp r where st: "stop t k = Some (cmp, r)" by fastforce
  from stop_lookup[OF st] assms have "cmp = 0" by (auto split: if_splits)
  with st show ?thesis by blast
qed

lemma Set_present:
  assumes I: "inv db R T" and p: "lookup (T (unat (bucket db k))) k = Some w"
  shows "\<exists>e db'. Set db k v = Some (e, db') \<and> inv db' R T \<and> nbuckets db' = nbuckets db"
proof -
  note D = invD[OF I]
  let ?i = "unat (bucket db k)"
  let ?off = "of_nat (length (dbfile db)) :: u64"
  let ?n = "newRecord ?off k v"
  have il: "?i < length (buckets db)" by (rule inv_bucket_less[OF I])
  from p have tn: "T ?i \<noteq> Leaf" by auto
  then have nz: "buckets db ! ?i \<noteq> 0" using inv_root_zero[OF I il] by simp
  from lookup_Some_stop[OF p] obtain r where st: "stop (T ?i) k = Some (0, r)" by blast
  have bs: "binSearch (dbfile db) k (buckets db ! ?i) = Some (Inr (0, r))"
    using binSearch_stop[OF D(10)[OF il] tn, of k] st by simp
  have S: "Set db k v = Some (appendRecord db ?off k v)"
    using nz il D(4) bs by (simp add: Set_def Let_def)
  show ?thesis
  proof (cases "rsize ?n = 0 \<or> 2 ^ 63 \<le> length (dbfile db) + unat (rsize ?n)")
    case True
    then have "appendRecord db ?off k v = (None, db) \<or> appendRecord db ?off k v = (Some IOError, db)"
      using appendRecord_eq[OF D(4), of k v] by (auto split: if_splits)
    then show ?thesis using S I by auto
  next
    case False
    then have a: "appendRecord db ?off k v = (None, db\<lparr>dbfile := dbfile db @ recordBytes ?n\<rparr>)"
      using appendRecord_eq[OF D(4), of k v] by simp
    have "inv (db\<lparr>dbfile := dbfile db @ recordBytes ?n\<rparr>) R T"
      by (rule inv_extend[OF I]) (use False in simp)
    then show ?thesis using S a by simp
  qed
qed

lemma rep_child:
  assumes "rep f off t" "x \<in> nodes t"
  shows "(left x \<noteq> 0 \<longrightarrow> (\<exists>y\<in>nodes t. offset y = left x)) \<and>
         (right x \<noteq> 0 \<longrightarrow> (\<exists>y\<in>nodes t. offset y = right x))"
  using assms
proof (induction t arbitrary: off)
  case Leaf then show ?case by simp
next
  case (Node l r rt)
  from Node.prems(1) have l: "rep f (left r) l" and rt: "rep f (right r) rt" by simp_all
  have root: "\<exists>y\<in>nodes t'. offset y = o'" if "rep f o' t'" "o' \<noteq> 0" for o' t'
  proof (cases t')
    case Leaf with that show ?thesis by simp
  next
    case (Node l' r' rt')
    with that have "readRecord f o' = Inr r'" by simp
    from readRecord_offset[OF this] Node show ?thesis by simp
  qed
  from Node.prems(2) consider "x = r" | "x \<in> nodes l" | "x \<in> nodes rt" by auto
  then show ?case
  proof cases
    case 1
    then show ?thesis using root[OF l] root[OF rt] by auto
  next
    case 2
    from Node.IH(1)[OF l 2] show ?thesis by auto
  next
    case 3
    from Node.IH(2)[OF rt 3] show ?thesis by auto
  qed
qed

lemma Set_terminates:
  assumes I: "inv db R T"
  shows "\<exists>res. Set db k v = Some res"
proof -
  note D = invD[OF I]
  let ?i = "unat (bucket db k)"
  have il: "?i < length (buckets db)" by (rule inv_bucket_less[OF I])
  show ?thesis
  proof (cases "buckets db ! ?i = 0")
    case True
    then show ?thesis using il D(4) by (simp add: Set_def Let_def)
  next
    case False
    then have tn: "T ?i \<noteq> Leaf" using inv_root_zero[OF I il] by simp
    from stop_Some[OF tn] obtain cmp r where st: "stop (T ?i) k = Some (cmp, r)" by fastforce
    have bs: "binSearch (dbfile db) k (buckets db ! ?i) = Some (Inr (cmp, r))"
      using binSearch_stop[OF D(10)[OF il] tn, of k] st by simp
    show ?thesis using False il D(4) bs by (simp add: Set_def Let_def)
  qed
qed

lemma no_buckets:
  assumes "buckets db = []"
  shows "Get db k = Some (None, Some Panic)" "\<exists>res. Set db k v = Some res"
  using assms by (simp_all add: Get_def Set_def Let_def)

lemma reach_cases:
  assumes "Create nb = Inr db0" "Sets db0 kvs = Some (Inr db)" "\<forall>kv\<in>set kvs. fits kv"
  shows "buckets db = [] \<and> kvs = [] \<or>
         unat nb < 60 \<and> (\<exists>R T. inv db R T \<and> (\<forall>k. lookup (T (unat (bucket db k))) k = map_of kvs k))"
proof (cases "unat nb < 60")
  case True
  from reach_inv[OF assms(1) True assms(2,3)] True show ?thesis by blast
next
  case False
  with Create_cases[OF assms(1)] have e: "buckets db0 = []" by simp
  have "kvs = []"
  proof (cases kvs)
    case Nil then show ?thesis .
  next
    case (Cons kv kvs')
    from Sets_nonempty_buckets[OF assms(2)[unfolded Cons]] e show ?thesis by simp
  qed
  with assms(2) e show ?thesis by simp
qed

lemma Sets_from_Create:
  assumes "unat nb < 60" "\<forall>kv\<in>set kvs. fits kv" "4 + 8 * 2 ^ unat nb + length kvs * 2 ^ 31 < 2 ^ 63"
  shows "\<exists>db0 db. Create nb = Inr db0 \<and> Sets db0 kvs = Some (Inr db)"
proof -
  let ?db0 = "\<lparr>nbuckets = nb, buckets = replicate (2 ^ unat nb) 0,
               dbfile = be32 nb @ concat (replicate (2 ^ unat nb) (be64 0))\<rparr>"
  have C: "Create nb = Inr ?db0" by (rule Create_small[OF assms(1)])
  have I: "inv ?db0 {} (\<lambda>_. Leaf)" by (rule Create_inv[OF C assms(1)])
  have "length (dbfile ?db0) + length kvs * 2 ^ 31 < 2 ^ 63" using assms(3) by simp
  from Sets_succeeds[OF I assms(2) this] C show ?thesis by blast
qed

section \<open>Keys and values beyond the sizes of the format\<close>

lemma readRecord_EOF:
  assumes "unat off < 2 ^ 63" "length f < unat off + 28"
  shows "readRecord f off = Inl EOF"
proof -
  have s: "sint off = int (unat off)" by (rule sint_unat_small[OF assms(1)])
  show ?thesis unfolding readRecord_def s using assms(2) by (simp add: ReadAt_def)
qed

lemma Create_0:
  obtains db0 where "Create 0 = Inr db0" "nbuckets db0 = 0" "buckets db0 = [0]"
    "length (dbfile db0) = 12" "inv db0 {} (\<lambda>_. Leaf)"
proof -
  have u: "unat (0 :: u32) < 60" by simp
  let ?db0 = "\<lparr>nbuckets = 0 :: u32, buckets = replicate (2 ^ unat (0 :: u32)) 0,
               dbfile = be32 0 @ concat (replicate (2 ^ unat (0 :: u32)) (be64 0))\<rparr>"
  have C: "Create 0 = Inr ?db0" by (rule Create_small[OF u])
  show ?thesis
  proof (rule that[OF C])
    show "inv ?db0 {} (\<lambda>_. Leaf)" by (rule Create_inv[OF C u])
  qed simp_all
qed

lemma oversize_rsize:
  "rsize (newRecord off (replicate (2 ^ 31) x) []) = 0"
  by (simp add: nextPowerTwo_def smear_def)

lemma Set_oversize_first:
  assumes nb: "nbuckets db = 0" and b: "buckets db = [0]" and len: "length (dbfile db) = 12"
    and z: "rsize (newRecord 12 k v) = 0"
  shows "\<exists>db'. Set db k v = Some (None, db') \<and> nbuckets db' = 0 \<and> buckets db' = [12] \<and>
           length (dbfile db') = 12"
proof -
  let ?X = "writeBuckets (db\<lparr>buckets := [12]\<rparr>)"
  have b0: "bucket db k = 0" using nb by (rule bucket_zero)
  have S: "Set db k v = Some (appendRecord ?X 12 k v)"
    using b len b0 by (simp add: Set_def Let_def)
  have lx: "length (dbfile ?X) = 12"
    using writeBuckets_frame(1)[of "db\<lparr>buckets := [12]\<rparr>"] len by simp
  have "appendRecord ?X 12 k v = (None, ?X)"
    using appendRecord_eq[of ?X k v] z lx by simp
  with S lx nb show ?thesis by simp
qed

lemma stale_root:
  assumes nb: "nbuckets db = 0" and b: "buckets db = [off]" and nz: "off \<noteq> 0"
    and o: "unat off < 2 ^ 63" and len: "length (dbfile db) < unat off + 28"
    and l63: "length (dbfile db) < 2 ^ 63"
  shows "Get db k = Some (None, Some EOF)" "Set db k v = Some (Some EOF, db)"
proof -
  have b0: "bucket db k = 0" using nb by (rule bucket_zero)
  have "readRecord (dbfile db) off = Inl EOF" by (rule readRecord_EOF[OF o len])
  then have bs: "binSearch (dbfile db) k off = Some (Inl EOF)" by (rule binSearch_Inl)
  show "Get db k = Some (None, Some EOF)" using b nz b0 bs by (simp add: Get_def Let_def)
  show "Set db k v = Some (Some EOF, db)" using b nz b0 bs l63 by (simp add: Set_def Let_def)
qed

lemma oversize_state:
  "\<exists>db0 db. Create 0 = Inr db0 \<and> Set db0 (replicate (2 ^ 31) 0) [] = Some (None, db) \<and>
     (\<forall>k. Get db k = Some (None, Some EOF)) \<and> (\<forall>k v. Set db k v = Some (Some EOF, db))"
proof -
  obtain db0 where C: "Create 0 = Inr db0" and d: "nbuckets db0 = 0" "buckets db0 = [0]"
    "length (dbfile db0) = 12" by (rule Create_0)
  from Set_oversize_first[OF d oversize_rsize] obtain db where
    S: "Set db0 (replicate (2 ^ 31) 0) [] = Some (None, db)"
    and e: "nbuckets db = 0" "buckets db = [12]" and l: "length (dbfile db) = 12" by blast
  have u: "unat (12 :: u64) < 2 ^ 63" "(12 :: u64) \<noteq> 0" by simp_all
  have l1: "length (dbfile db) < unat (12 :: u64) + 28" and l2: "length (dbfile db) < 2 ^ 63"
    using l by simp_all
  note s = stale_root[OF e u(2) u(1) l1 l2]
  show ?thesis using C S s by blast
qed

lemma Create_64:
  "Create 64 = Inr (writeBuckets \<lparr>nbuckets = 64, buckets = [], dbfile = []\<rparr>)"
  by (simp add: Create_def Let_def)

lemma rsize_29: "rsize (newRecord off [x] []) = 32"
  by (simp add: nextPowerTwo_def smear_def)

lemma Set_first_small:
  assumes C: "Create 0 = Inr db0" and fit: "fits (k, v)"
  shows "\<exists>db R T. Set db0 k v = Some (None, db) \<and> inv db R T \<and>
           T 0 = Node Leaf (newRecord 12 k v) Leaf \<and> nbuckets db = 0 \<and> buckets db = [12] \<and>
           length (dbfile db) = 12 + unat (rsize (newRecord 12 k v))"
proof -
  obtain db0' where C': "Create 0 = Inr db0'" and d: "nbuckets db0' = 0" "buckets db0' = [0]"
    "length (dbfile db0') = 12" and I0: "inv db0' {} (\<lambda>_. Leaf)" by (rule Create_0)
  from C C' have e: "db0' = db0" by simp
  note d = d[unfolded e] and I0 = I0[unfolded e]
  have f: "\<forall>kv\<in>set [(k, v)]. fits kv" using fit by simp
  have "\<exists>db. Sets db0 [(k, v)] = Some (Inr db)"
    by (rule Sets_succeeds[OF I0 f]) (simp add: d)
  then obtain db where "Sets db0 [(k, v)] = Some (Inr db)" by blast
  then have S: "Set db0 k v = Some (None, db)" by (auto split: option.splits prod.splits)
  have b0: "unat (bucket db0 k) = 0" using bucket_zero[OF d(1), of k] by simp
  from Set_inv[OF I0 fit S refl refl] obtain R where
    I: "inv db R ((\<lambda>_. Leaf)(unat (bucket db0 k) := ins (newRecord (of_nat (length (dbfile db0))) k v) Leaf))"
    and r: "buckets db0 ! unat (bucket db0 k) = 0 \<longrightarrow>
            buckets db ! unat (bucket db0 k) = of_nat (length (dbfile db0))"
    and l: "length (dbfile db) = length (dbfile db0) +
            unat (rsize (newRecord (of_nat (length (dbfile db0))) k v))" by blast
  from Set_buckets[OF S] d have nb: "nbuckets db = 0" and lb: "length (buckets db) = 1" by simp_all
  from r have "buckets db ! 0 = 12" unfolding b0 d by simp
  with lb have bs: "buckets db = [12]" by (cases "buckets db") simp_all
  let ?T = "(\<lambda>_. Leaf)(0 := Node Leaf (newRecord 12 k v) Leaf)"
  have I': "inv db R ?T" using I unfolding b0 d by simp
  have "length (dbfile db) = 12 + unat (rsize (newRecord 12 k v))" using l unfolding d by simp
  with S I' nb bs show ?thesis by (intro exI[of _ db] exI[of _ R] exI[of _ ?T]) simp
qed

lemma Set_right_of_root:
  assumes I: "inv db R T" and nb: "nbuckets db = 0" and T0: "T 0 = Node Leaf m Leaf"
    and c: "Compare k (key m) > 0" and off: "off = of_nat (length (dbfile db))"
  shows "\<exists>f1. Set db k v = Some (appendRecord (db\<lparr>dbfile := f1\<rparr>) off k v) \<and>
           length f1 = length (dbfile db) \<and> stored f1 (m\<lparr>right := off\<rparr>)"
proof -
  note D = invD[OF I]
  have lb: "length (buckets db) = 1" using D(2) nb by simp
  have b0: "bucket db k = 0" using nb by (rule bucket_zero)
  have i0: "0 < length (buckets db)" using lb by simp
  have nz: "buckets db ! 0 \<noteq> 0" using inv_root_zero[OF I i0] T0 by simp
  have mR: "m \<in> R" using D(12)[OF i0] T0 by simp
  have tn: "T 0 \<noteq> Leaf" using T0 by simp
  have "stop (T 0) k = Some (Compare k (key m), m)" unfolding T0 stop_Node by simp
  with binSearch_stop[OF D(10)[OF i0] tn, of k]
  have bs: "binSearch (dbfile db) k (buckets db ! 0) = Some (Inr (Compare k (key m), m))" by simp
  have ne: "k \<noteq> key m" using c by auto
  have S: "Set db k v = Some (appendRecord (writeLink db (m\<lparr>right := off\<rparr>)) off k v)"
    using nz lb D(4) bs c b0 off ne by (simp add: Set_def Let_def)
  from writeLink_eq[OF D(5)[OF mR] D(4) refl, of "m\<lparr>right := off\<rparr>"]
  obtain f1 where "writeLink db (m\<lparr>right := off\<rparr>) = db\<lparr>dbfile := f1\<rparr>"
    "length f1 = length (dbfile db)" "stored f1 (m\<lparr>right := off\<rparr>)" by auto
  with S show ?thesis by auto
qed

lemma Compare_replicate_gt:
  assumes "0 < n" "y < x"
  shows "Compare (replicate n x) [y] = 1"
proof -
  from assms(1) obtain n' where "n = Suc n'" by (cases n) simp_all
  then show ?thesis using assms(2) by simp
qed

text \<open>
  After a key of one byte and a greater key of \<open>2\<^sup>3\<^sup>1\<close> bytes the root of the bucket has
  a right link to the end of the file, where no record has been written.
\<close>

lemma dangling_state:
  "\<exists>db0 db m. Create 0 = Inr db0 \<and>
     Sets db0 [([109], []), (replicate (2 ^ 31) 122, [])] = Some (Inr db) \<and>
     nbuckets db = 0 \<and> buckets db = [12] \<and> length (dbfile db) = 44 \<and>
     readRecord (dbfile db) 12 = Inr m \<and> key m = [109] \<and> left m = 0 \<and> right m = 44"
proof -
  obtain db0 where C: "Create 0 = Inr db0" by (rule Create_0)
  have fit: "fits ([109], [])" by (simp add: fits_def)
  let ?m = "newRecord 12 [109] []"
  from Set_first_small[OF C fit] obtain db1 R T where
    S1: "Set db0 [109] [] = Some (None, db1)" and I: "inv db1 R T"
    and T0: "T 0 = Node Leaf ?m Leaf" and nb: "nbuckets db1 = 0" and bs: "buckets db1 = [12]"
    and l: "length (dbfile db1) = 12 + unat (rsize ?m)" by blast
  have l44: "length (dbfile db1) = 44" using l unfolding rsize_29 by simp
  let ?k = "replicate (2 ^ 31) 122 :: byte list"
  have c: "Compare ?k (key ?m) > 0" using Compare_replicate_gt[of "2 ^ 31" 109 122] by simp
  from Set_right_of_root[OF I nb T0 c refl, of "[]"] obtain f1 where
    S2: "Set db1 ?k [] = Some (appendRecord (db1\<lparr>dbfile := f1\<rparr>) (of_nat (length (dbfile db1))) ?k [])"
    and lf: "length f1 = length (dbfile db1)"
    and st: "stored f1 (?m\<lparr>right := of_nat (length (dbfile db1))\<rparr>)" by blast
  let ?db = "db1\<lparr>dbfile := f1\<rparr>"
  have a: "appendRecord ?db (of_nat (length (dbfile db1))) ?k [] = (None, ?db)"
    using appendRecord_eq[of ?db ?k "[]"] oversize_rsize[of "of_nat (length (dbfile ?db))" 122]
    by (simp add: lf l44 del: newRecord_simps(6))
  have S: "Sets db0 [([109], []), (?k, [])] = Some (Inr ?db)" using S1 S2 a by simp
  have "readRecord f1 (offset (?m\<lparr>right := of_nat (length (dbfile db1))\<rparr>)) =
        Inr (?m\<lparr>right := of_nat (length (dbfile db1))\<rparr>)"
    by (rule stored_readRecord[OF st]) (simp add: lf l44)
  then have r: "readRecord f1 12 = Inr (?m\<lparr>right := 44\<rparr>)" by (simp add: l44)
  show ?thesis
    using C S nb bs lf l44 r
    by (intro exI[of _ db0] exI[of _ ?db] exI[of _ "?m\<lparr>right := 44\<rparr>"]) simp
qed

lemma wrapped_rsize: "rsize (newRecord off (replicate (2 ^ 32) x) []) = 32"
  by (simp add: nextPowerTwo_def smear_def)

lemma wrapped_bytes:
  "recordBytes (newRecord off (replicate (2 ^ 32) x) []) =
     recordHeader (newRecord off (replicate (2 ^ 32) x) []) @ [x, x, x, x]"
proof -
  let ?n = "newRecord off (replicate (2 ^ 32) x) []"
  have "recordBytes ?n = take 32 (recordHeader ?n @ replicate (2 ^ 32) x)"
    unfolding recordBytes_def Let_def wrapped_rsize by simp
  also have "\<dots> = recordHeader ?n @ take 4 (replicate (2 ^ 32) x)" by simp
  also have "take 4 (replicate (2 ^ 32) x) = replicate 4 x" by simp
  also have "replicate 4 x = [x, x, x, x]" by (simp add: numeral_eq_Suc)
  finally show ?thesis .
qed

lemma wrapped_header:
  "recordHeader (newRecord off (replicate (2 ^ 32) x) []) =
     be32 32 @ be64 0 @ be64 0 @ be32 0 @ be32 0"
proof -
  have z: "(4294967296 :: u32) = 0" by simp
  show ?thesis unfolding recordHeader_def wrapped_rsize by simp (simp only: z)
qed

lemma readRecord_wrapped:
  assumes lf: "length f1 = 44"
  shows "readRecord (f1 @ recordBytes (newRecord 44 (replicate (2 ^ 32) x) [])) 44 =
           Inr \<lparr>offset = 44, rsize = 32, left = 0, right = 0, key = [], val = []\<rparr>"
proof -
  let ?h = "be32 32 @ be64 0 @ be64 0 @ be32 0 @ be32 0"
  let ?f = "f1 @ ?h @ [x, x, x, x]"
  have h: "ReadAt ?f 28 (sint (44 :: u64)) = Inr ?h" by (simp add: ReadAt_def lf)
  have d: "\<And>g. ReadAt g 0 72 = Inr []" by (simp add: ReadAt_def)
  show ?thesis
    unfolding wrapped_bytes wrapped_header readRecord_def h
    by (simp add: Let_def d)
qed

text \<open>
  After a key of one byte and a greater key of \<open>2\<^sup>3\<^sup>2\<close> bytes: the second record has
  the size 32 and the key length 0 in its header, and is read back with the empty key.
\<close>

lemma truncated_state:
  "\<exists>db0 db m. Create 0 = Inr db0 \<and>
     Sets db0 [([109], []), (replicate (2 ^ 32) 122, [])] = Some (Inr db) \<and>
     written db0 [([109], []), (replicate (2 ^ 32) 122, [])] = [12, 44] \<and>
     nbuckets db = 0 \<and> buckets db = [12] \<and> length (dbfile db) = 76 \<and>
     readRecord (dbfile db) 12 = Inr m \<and> key m = [109] \<and> left m = 0 \<and> right m = 44 \<and>
     readRecord (dbfile db) 44 =
       Inr \<lparr>offset = 44, rsize = 32, left = 0, right = 0, key = [], val = []\<rparr> \<and>
     dbfile db ! 72 = 122"
proof -
  obtain db0 where C: "Create 0 = Inr db0" and l0: "length (dbfile db0) = 12" by (rule Create_0)
  have fit: "fits ([109], [])" by (simp add: fits_def)
  let ?m = "newRecord 12 [109] []"
  from Set_first_small[OF C fit] obtain db1 R T where
    S1: "Set db0 [109] [] = Some (None, db1)" and I: "inv db1 R T"
    and T0: "T 0 = Node Leaf ?m Leaf" and nb: "nbuckets db1 = 0" and bs: "buckets db1 = [12]"
    and l: "length (dbfile db1) = 12 + unat (rsize ?m)" by blast
  have l44: "length (dbfile db1) = 44" using l unfolding rsize_29 by simp
  let ?k = "replicate (2 ^ 32) 122 :: byte list"
  let ?n = "newRecord 44 ?k []"
  have c: "Compare ?k (key ?m) > 0" using Compare_replicate_gt[of "2 ^ 32" 109 122] by simp
  from Set_right_of_root[OF I nb T0 c refl, of "[]"] obtain f1 where
    S2: "Set db1 ?k [] = Some (appendRecord (db1\<lparr>dbfile := f1\<rparr>) (of_nat (length (dbfile db1))) ?k [])"
    and lf: "length f1 = length (dbfile db1)"
    and st: "stored f1 (?m\<lparr>right := of_nat (length (dbfile db1))\<rparr>)" by blast
  have lf44: "length f1 = 44" using lf l44 by simp
  let ?db = "db1\<lparr>dbfile := f1 @ recordBytes ?n\<rparr>"
  have a: "appendRecord (db1\<lparr>dbfile := f1\<rparr>) (of_nat (length (dbfile db1))) ?k [] = (None, ?db)"
    using appendRecord_eq[of "db1\<lparr>dbfile := f1\<rparr>" ?k "[]"]
      wrapped_rsize[of "of_nat (length (dbfile (db1\<lparr>dbfile := f1\<rparr>)))" 122]
    by (simp add: lf l44 del: newRecord_simps(6))
  have S2': "Set db1 ?k [] = Some (None, ?db)" using S2 a by simp
  have S: "Sets db0 [([109], []), (?k, [])] = Some (Inr ?db)" using S1 S2' by simp
  have w: "written db0 [([109], []), (?k, [])] = [12, 44]" using S1 S2' l0 l44 by simp
  have len: "length (f1 @ recordBytes ?n) = 76"
    unfolding wrapped_bytes by (simp add: lf44)
  have l63: "length (f1 @ recordBytes ?n) < 2 ^ 63" unfolding len by simp
  have st': "stored (f1 @ recordBytes ?n) (?m\<lparr>right := of_nat (length (dbfile db1))\<rparr>)"
    by (rule stored_append[OF st])
  have "readRecord (f1 @ recordBytes ?n) (offset (?m\<lparr>right := of_nat (length (dbfile db1))\<rparr>)) =
        Inr (?m\<lparr>right := of_nat (length (dbfile db1))\<rparr>)"
    by (rule stored_readRecord[OF st' l63])
  then have r: "readRecord (f1 @ recordBytes ?n) 12 = Inr (?m\<lparr>right := 44\<rparr>)" by (simp add: l44)
  have r2: "readRecord (f1 @ recordBytes ?n) 44 =
       Inr \<lparr>offset = 44, rsize = 32, left = 0, right = 0, key = [], val = []\<rparr>"
    by (rule readRecord_wrapped[OF lf44])
  have b: "(f1 @ recordBytes ?n) ! 72 = 122"
    unfolding wrapped_bytes by (simp add: nth_append lf44)
  show ?thesis
    using C S w nb bs len r r2 b
    by (intro exI[of _ db0] exI[of _ ?db] exI[of _ "?m\<lparr>right := 44\<rparr>"]) simp
qed

lemma Set_after_truncated:
  assumes nb: "nbuckets db = 0" and bs: "buckets db = [12]" and len: "length (dbfile db) = 76"
    and r: "readRecord (dbfile db) 12 = Inr m" and m: "key m = [109]" "right m = 44"
    and r2: "readRecord (dbfile db) 44 =
       Inr \<lparr>offset = 44, rsize = 32, left = 0, right = 0, key = [], val = []\<rparr>"
  shows "\<exists>db'. Set db [200] [] = Some (None, db') \<and> dbfile db' ! 72 = 0"
proof -
  let ?c = "\<lparr>offset = 44, rsize = 32, left = 0, right = 0, key = [], val = []\<rparr> :: dbrecord"
  let ?c' = "?c\<lparr>right := 76\<rparr>"
  let ?f = "dbfile db"
  have b0: "bucket db [200] = 0" using nb by (rule bucket_zero)
  have "binSearch ?f [200] 12 = binSearch ?f [200] 44"
    using binSearch_Inr[OF r, of "[200]"] m by simp
  also have "\<dots> = Some (Inr (1, ?c))" using binSearch_Inr[OF r2, of "[200]"] by simp
  finally have bsr: "binSearch ?f [200] 12 = Some (Inr (1, ?c))" .
  have S: "Set db [200] [] = Some (appendRecord (writeLink db ?c') 76 [200] [])"
    using bs len b0 bsr by (simp add: Set_def Let_def)
  have wf: "28 + length (key ?c') + length (val ?c') \<le> unat (rsize ?c')" by simp
  have r4: "replicate 4 (0 :: byte) = [0, 0, 0, 0]" by (simp add: numeral_eq_Suc)
  have "recordBytes ?c' = recordHeader ?c' @ replicate 4 0"
    using recordBytes_layout[OF wf] by simp
  then have rb: "recordBytes ?c' = recordHeader ?c' @ [0, 0, 0, 0]" unfolding r4 .
  have ne: "recordBytes ?c' \<noteq> []" unfolding rb by simp
  have lb: "length (recordBytes ?c') = 32" by simp
  have "WriteAt ?f (recordBytes ?c') 44 = Inr (take 44 ?f @ recordBytes ?c')"
    unfolding WriteAt_def using ne len lb by simp
  then have wl: "writeLink db ?c' = db\<lparr>dbfile := take 44 ?f @ recordBytes ?c'\<rparr>"
    by (simp add: writeLink_def writeRecord_def)
  let ?dbw = "db\<lparr>dbfile := take 44 ?f @ recordBytes ?c'\<rparr>"
  have lw: "length (dbfile ?dbw) = 76" using len by simp
  have a: "appendRecord ?dbw 76 [200] [] =
        (None, ?dbw\<lparr>dbfile := dbfile ?dbw @ recordBytes (newRecord 76 [200] [])\<rparr>)"
    using appendRecord_eq[of ?dbw "[200]" "[]"] rsize_29[of 76 200] lw
    by (simp del: newRecord_simps(6))
  have "((take 44 ?f @ recordBytes ?c') @ recordBytes (newRecord 76 [200] [])) ! 72 = 0"
    unfolding rb using len by (simp add: nth_append)
  then show ?thesis using S wl a by simp
qed

section \<open>The digest of the empty key\<close>

lemma md5_sum_Nil:
  "md5_sum [] = [0xd4, 0x1d, 0x8c, 0xd9, 0x8f, 0x00, 0xb2, 0x04,
                 0xe9, 0x80, 0x09, 0x98, 0xec, 0xf8, 0x42, 0x7e]"
  by code_simp
section \<open>The claims\<close>

subsection \<open>C2: the bucket index\<close>

text \<open>
  C2. The claim is that the bucket index is the little-endian 64-bit integer of the first
  8 digest bytes, masked to the lowest \<open>B\<close> bits. The code shifts each digest byte as a
  byte, so that only byte 0 of the digest is left (lemma \<open>bucket_first_byte\<close>). For the
  empty key, whose digest starts with the bytes d4 1d, and \<open>B = 16\<close> the code computes
  212 (hexadecimal d4) where the claim asks for 7636 (hexadecimal 1dd4).
\<close>

theorem bucket_of_empty_key:
  "bucket \<lparr>nbuckets = 16, buckets = bs, dbfile = f\<rparr> [] = 212 \<and> bucketIndex_spec 16 [] = 7636"
  by (simp add: bucket_first_byte bucketIndex_spec_def md5_sum_Nil mask_eq_exp_minus_1)

subsection \<open>C7: the record codec\<close>



subsection \<open>C8: the allocated size\<close>

text \<open>
  C8 as the code has it. \<open>nextPowerTwo 0 = 1\<close>. For a key and a value with
  \<open>28 + length k + length v \<le> 2\<^sup>3\<^sup>1\<close> the allocated size of the new record is the
  smallest power of two that is at least \<open>28 + length k + length v\<close>, and the record
  written again with any left and right link is its header, key and value followed by
  zeros, nothing cut off.
\<close>

theorem allocatedSize_is_next_power_of_two:
  assumes "28 + length k + length v \<le> 2 ^ 31"
  shows "nextPowerTwo 0 = 1 \<and>
         (\<exists>n. unat (rsize (newRecord off k v)) = 2 ^ n \<and> 28 + length k + length v \<le> 2 ^ n \<and>
             (\<forall>j. 28 + length k + length v \<le> 2 ^ j \<longrightarrow> n \<le> j)) \<and>
         recordBytes (newRecord off k v\<lparr>left := l, right := r\<rparr>) =
           recordHeader (newRecord off k v\<lparr>left := l, right := r\<rparr>) @ k @ v @
           replicate (unat (rsize (newRecord off k v)) - (28 + length k + length v)) 0"
proof -
  have "28 + length (key (newRecord off k v\<lparr>left := l, right := r\<rparr>)) +
        length (val (newRecord off k v\<lparr>left := l, right := r\<rparr>))
        \<le> unat (rsize (newRecord off k v\<lparr>left := l, right := r\<rparr>))"
    using newRecord_fit[OF assms, of off] by simp
  from recordBytes_layout[OF this] newRecord_size[OF assms, of off]
  show ?thesis by (simp add: nextPowerTwo_def)
qed

text \<open>The theorem at a key of three bytes and a value of two.\<close>

theorem allocatedSize_is_next_power_of_two_witness:
  "nextPowerTwo 0 = 1 \<and>
   (\<exists>n. unat (rsize (newRecord 12 [1, 2, 3] [4, 5])) = 2 ^ n \<and> 28 + length [1, 2, 3 :: byte] + length [4, 5 :: byte] \<le> 2 ^ n \<and>
       (\<forall>j. 28 + length [1, 2, 3 :: byte] + length [4, 5 :: byte] \<le> 2 ^ j \<longrightarrow> n \<le> j)) \<and>
   recordBytes (newRecord 12 [1, 2, 3] [4, 5]\<lparr>left := 44, right := 0\<rparr>) =
     recordHeader (newRecord 12 [1, 2, 3] [4, 5]\<lparr>left := 44, right := 0\<rparr>) @ [1, 2, 3] @ [4, 5] @
     replicate (unat (rsize (newRecord 12 [1, 2, 3] [4, 5])) - (28 + length [1, 2, 3 :: byte] + length [4, 5 :: byte])) 0"
  using allocatedSize_is_next_power_of_two[where k = "[1, 2, 3]" and v = "[4, 5]" and off = 12 and l = 44 and r = 0]
  by simp

text \<open>
  C8 as stated fails: for a key of \<open>2\<^sup>3\<^sup>1\<close> bytes and the empty value the sum
  \<open>28 + 2\<^sup>3\<^sup>1\<close> is a \<^verbatim>\<open>uint32\<close> above \<open>2\<^sup>3\<^sup>1\<close>, and \<^verbatim>\<open>nextPowerTwo\<close> wraps around
  to 0.
\<close>

theorem allocatedSize_wraps_to_zero:
  "rsize (newRecord 0 (replicate (2 ^ 31) 0) []) = 0 \<and>
   \<not> 28 + length (replicate (2 ^ 31) (0 :: byte)) + length ([] :: byte list)
       \<le> unat (rsize (newRecord 0 (replicate (2 ^ 31) 0) []))"
  by (simp add: nextPowerTwo_def smear_def)

end
